theory Spec2Isabelle
  imports Complex_Main "HOL-Library.AList"
begin

section \<open>Python values\<close>

text \<open>
  The values that \<open>json.loads\<close> returns. A JSON object is a Python dict, kept as an
  association list that \<open>map_of\<close> reads. A float is kept as the rational number it is
  equal to (NaN and the infinities are not represented). Text decoded from JSON is a
  \<open>string\<close>, one character for one code point (those below 256); Python's \<open>None\<close>
  is \<open>JNull\<close>.
\<close>

datatype json =
    JNull
  | JBool bool
  | JInt int
  | JFloat rat
  | JStr string
  | JArr "json list"
  | JObj "(string \<times> json) list"

datatype error = KeyError | TypeError | AttributeError | ValueError | ValidationError

type_synonym 'a result = "error + 'a"

definition bind :: "'a result \<Rightarrow> ('a \<Rightarrow> 'b result) \<Rightarrow> 'b result" where
  "bind m f = (case m of Inl e \<Rightarrow> Inl e | Inr x \<Rightarrow> f x)"

text \<open>Truth value of a Python object, as \<open>not\<close>, \<open>or\<close> and \<open>if\<close> read it.\<close>

fun truthy :: "json \<Rightarrow> bool" where
  "truthy JNull = False"
| "truthy (JBool b) = b"
| "truthy (JInt i) = (i \<noteq> 0)"
| "truthy (JFloat r) = (r \<noteq> 0)"
| "truthy (JStr s) = (s \<noteq> [])"
| "truthy (JArr xs) = (xs \<noteq> [])"
| "truthy (JObj d) = (d \<noteq> [])"

text \<open>\<open>d.get(k, default)\<close> on a dict; \<open>d.get(k)\<close> is \<open>dict_get d k JNull\<close>.\<close>

definition dict_get :: "(string \<times> json) list \<Rightarrow> string \<Rightarrow> json \<Rightarrow> json" where
  "dict_get d k dflt = (case map_of d k of None \<Rightarrow> dflt | Some v \<Rightarrow> v)"

text \<open>\<open>v[k]\<close> with a string key: only a dict that has the key answers.\<close>

fun getitem :: "json \<Rightarrow> string \<Rightarrow> json result" where
  "getitem (JObj d) k = (case map_of d k of None \<Rightarrow> Inl KeyError | Some v \<Rightarrow> Inr v)"
| "getitem _ k = Inl TypeError"

text \<open>\<open>for x in v\<close>: a list gives its elements, a dict its keys, a string its characters.\<close>

fun iter :: "json \<Rightarrow> json list result" where
  "iter (JArr xs) = Inr xs"
| "iter (JObj d) = Inr (map (\<lambda>kv. JStr (fst kv)) d)"
| "iter (JStr s) = Inr (map (\<lambda>c. JStr [c]) s)"
| "iter _ = Inl TypeError"

fun is_prefix :: "'a list \<Rightarrow> 'a list \<Rightarrow> bool" where
  "is_prefix [] ys = True"
| "is_prefix (x # xs) [] = False"
| "is_prefix (x # xs) (y # ys) = (x = y \<and> is_prefix xs ys)"

fun contains :: "'a list \<Rightarrow> 'a list \<Rightarrow> bool" where
  "contains [] sub = (sub = [])"
| "contains (y # ys) sub = (is_prefix sub (y # ys) \<or> contains ys sub)"

text \<open>The number a value stands for in a comparison with a float; \<open>bool\<close> is an \<open>int\<close>.\<close>

fun num_value :: "json \<Rightarrow> rat option" where
  "num_value (JInt i) = Some (of_int i)"
| "num_value (JBool b) = Some (if b then 1 else 0)"
| "num_value (JFloat r) = Some r"
| "num_value _ = None"

section \<open>What the pipeline takes from outside\<close>

text \<open>
  \<open>env_chat_engine\<close> and \<open>env_chat_user\<close> are \<open>os.getenv("CHAT_ENGINE")\<close> and
  \<open>os.getenv('CHAT_USER')\<close> (a string or \<open>None\<close>). \<open>float_round\<close> rounds the exact
  result of a float operation to the float that Python stores. \<open>py_repr\<close> is Python's own
  text for a float, a list or a dict inside an f-string. \<open>split_text\<close> is the
  \<open>split_text\<close> method of the configured splitter.
\<close>

record deps =
  env_chat_engine :: json
  env_chat_user :: json
  float_round :: "rat \<Rightarrow> rat"
  py_repr :: "json \<Rightarrow> string"
  split_text :: "string \<Rightarrow> string list"

section \<open>Accessibility decision (complete\_pipeline.py, lines 45 to 60)\<close>

text \<open>
  The seven subscript reads of lines 45 to 50, in the order Python makes them; the value
  kept is \<open>category_two["probability"]\<close>. They stand outside the \<open>try\<close> block, so a
  failure here leaves the function as an exception.
\<close>

definition category_two_probability :: "json \<Rightarrow> json result" where
  "category_two_probability lambda_response =
     bind (getitem lambda_response ''body'') (\<lambda>body.
     bind (getitem body ''category_one'') (\<lambda>category_one.
     bind (getitem body ''category_two'') (\<lambda>category_two.
     bind (getitem category_one ''probability'') (\<lambda>_.
     bind (getitem category_one ''name'') (\<lambda>_.
     bind (getitem category_two ''probability'') (\<lambda>p.
     bind (getitem category_two ''name'') (\<lambda>_. Inr p)))))))"

text \<open>\<open>1 - v\<close>: integer arithmetic on an \<open>int\<close> or \<open>bool\<close>, a rounded float otherwise.\<close>

fun one_minus :: "deps \<Rightarrow> json \<Rightarrow> json result" where
  "one_minus dp (JInt i) = Inr (JInt (1 - i))"
| "one_minus dp (JBool b) = Inr (JInt (1 - (if b then 1 else 0)))"
| "one_minus dp (JFloat r) = Inr (JFloat (float_round dp (1 - r)))"
| "one_minus dp _ = Inl TypeError"

text \<open>
  Lines 54 to 60. The float literal \<open>0.9\<close> is the float nearest to nine tenths, which
  lies above it, and no float lies between the two: a float or an integer is at least the
  literal exactly when it is at least \<open>9/10\<close>.
\<close>

definition accessibility_decision :: "deps \<Rightarrow> json \<Rightarrow> (string \<times> json) result" where
  "accessibility_decision dp p =
     (case num_value p of
        None \<Rightarrow> Inl TypeError
      | Some q \<Rightarrow>
          if 9 / 10 \<le> q then Inr (''work'', p)
          else bind (one_minus dp p) (\<lambda>s. Inr (''personal'', s)))"

section \<open>Normalizer and turn flattener (lines 83 to 126)\<close>

record document =
  page_content :: string
  metadata :: "(string \<times> json) list"

text \<open>Lines 85 to 99; \<open>None\<close> is the last branch, which returns the empty list.\<close>

fun normalize :: "json \<Rightarrow> json option" where
  "normalize (JObj d) =
     (if map_of d ''messages'' \<noteq> None then Some (JArr [JObj d])
      else (case map_of d ''data'' of Some v \<Rightarrow> Some v | None \<Rightarrow> None))"
| "normalize (JArr xs) = Some (JArr xs)"
| "normalize _ = None"

text \<open>Lines 113 to 124.\<close>

definition meta_of ::
  "deps \<Rightarrow> string \<times> json \<Rightarrow> (string \<times> json) list \<Rightarrow> (string \<times> json) list \<Rightarrow> (string \<times> json) list" where
  "meta_of dp acc chat msg =
     [(''chat_engine'', dict_get chat ''chat_engine'' (env_chat_engine dp)),
      (''chat_account'', dict_get chat ''chat_user'' (env_chat_user dp)),
      (''chat_id'', dict_get chat ''chat_id'' JNull),
      (''title'', dict_get chat ''title'' JNull),
      (''chat_creation_time'', dict_get chat ''chat_creation_time'' JNull),
      (''turn_id'', dict_get msg ''turn_id'' JNull),
      (''author'', dict_get msg ''author'' JNull),
      (''turn_timestamp'', dict_get msg ''turn_timestamp'' JNull),
      (''accessibility'', JStr (fst acc)),
      (''accessibility_confidence_score'', snd acc)]"

text \<open>Line 110: \<open>msg.get("message") or ""\<close>.\<close>

definition content_of :: "(string \<times> json) list \<Rightarrow> json" where
  "content_of msg =
     (let v = dict_get msg ''message'' JNull in if truthy v then v else JStr [])"

text \<open>
  Lines 110 to 126 for one turn. \<open>msg.get\<close> needs a dict. \<open>Document\<close> declares
  \<open>page_content: str\<close> and refuses anything else when it validates its fields.
\<close>

fun doc_of_msg :: "deps \<Rightarrow> string \<times> json \<Rightarrow> (string \<times> json) list \<Rightarrow> json \<Rightarrow> document result" where
  "doc_of_msg dp acc chat (JObj msg) =
     (case content_of msg of
        JStr s \<Rightarrow> Inr \<lparr>page_content = s, metadata = meta_of dp acc chat msg\<rparr>
      | _ \<Rightarrow> Inl ValidationError)"
| "doc_of_msg dp acc chat _ = Inl AttributeError"

text \<open>The inner loop of line 109: the first exception ends it.\<close>

fun docs_of_msgs :: "deps \<Rightarrow> string \<times> json \<Rightarrow> (string \<times> json) list \<Rightarrow> json list \<Rightarrow> document list result" where
  "docs_of_msgs dp acc chat [] = Inr []"
| "docs_of_msgs dp acc chat (m # ms) =
     bind (doc_of_msg dp acc chat m) (\<lambda>d.
     bind (docs_of_msgs dp acc chat ms) (\<lambda>ds. Inr (d # ds)))"

text \<open>
  Lines 105 to 126 for one chat. A dict without the key is skipped. A chat that is not a
  dict raises: a list or a string that holds \<open>"messages"\<close> at \<open>chat["messages"]\<close>, one
  that does not at \<open>chat.get\<close> in the message of line 106, anything else at the \<open>in\<close>
  test.
\<close>

fun docs_of_chat :: "deps \<Rightarrow> string \<times> json \<Rightarrow> json \<Rightarrow> document list result" where
  "docs_of_chat dp acc (JObj chat) =
     (case map_of chat ''messages'' of
        None \<Rightarrow> Inr []
      | Some ms \<Rightarrow> bind (iter ms) (docs_of_msgs dp acc chat))"
| "docs_of_chat dp acc (JArr xs) =
     (if JStr ''messages'' \<in> set xs then Inl TypeError else Inl AttributeError)"
| "docs_of_chat dp acc (JStr s) =
     (if contains s ''messages'' then Inl TypeError else Inl AttributeError)"
| "docs_of_chat dp acc _ = Inl TypeError"

text \<open>The outer loop of line 104.\<close>

fun docs_of_chats :: "deps \<Rightarrow> string \<times> json \<Rightarrow> json list \<Rightarrow> document list result" where
  "docs_of_chats dp acc [] = Inr []"
| "docs_of_chats dp acc (c # cs) =
     bind (docs_of_chat dp acc c) (\<lambda>ds.
     bind (docs_of_chats dp acc cs) (\<lambda>es. Inr (ds @ es)))"

text \<open>
  A chat record lacks its turn collection when it is a dict without the key
  \<open>"messages"\<close>; the turns of a chat record are the elements of the list under that key.
\<close>

fun lacks_messages :: "json \<Rightarrow> bool" where
  "lacks_messages (JObj chat) = (map_of chat ''messages'' = None)"
| "lacks_messages _ = False"


text \<open>The shapes that none of the three tests of lines 85 to 93 accepts.\<close>

fun unrecognized :: "json \<Rightarrow> bool" where
  "unrecognized (JObj d) = (map_of d ''messages'' = None \<and> map_of d ''data'' = None)"
| "unrecognized (JArr xs) = False"
| "unrecognized _ = True"


section \<open>Chunking loop and chunk identifiers (lines 144 to 150)\<close>

text \<open>\<open>str\<close> of a non-negative integer: its decimal digits.\<close>

definition digit_char :: "nat \<Rightarrow> char" where
  "digit_char n = ''0123456789'' ! n"

function str_nat :: "nat \<Rightarrow> string" where
  "str_nat n = (if n < 10 then [digit_char n] else str_nat (n div 10) @ [digit_char (n mod 10)])"
  by pat_completeness auto
termination
  by (relation "measure (\<lambda>n. n)") auto

declare str_nat.simps [simp del]

definition str_int :: "int \<Rightarrow> string" where
  "str_int i = (if i < 0 then CHR ''-'' # str_nat (nat (- i)) else str_nat (nat i))"

text \<open>
  What an f-string writes for a value: \<open>None\<close>, \<open>True\<close> and \<open>False\<close> by name, an integer
  in decimal, a string as it is, and Python's own text for the rest.
\<close>

fun py_str :: "deps \<Rightarrow> json \<Rightarrow> string" where
  "py_str dp JNull = ''None''"
| "py_str dp (JBool b) = (if b then ''True'' else ''False'')"
| "py_str dp (JInt i) = str_int i"
| "py_str dp (JStr s) = s"
| "py_str dp v = py_repr dp v"

text \<open>Line 149, read from the copied metadata.\<close>

definition chunk_id :: "deps \<Rightarrow> (string \<times> json) list \<Rightarrow> nat \<Rightarrow> string" where
  "chunk_id dp md i =
     py_str dp (dict_get md ''chat_id'' JNull) @ ''::'' @
     py_str dp (dict_get md ''turn_id'' JNull) @ ''::'' @ str_nat i"

text \<open>Lines 147 to 150 for the chunk at index \<open>i\<close>.\<close>

definition chunk_doc :: "deps \<Rightarrow> document \<Rightarrow> nat \<times> string \<Rightarrow> document" where
  "chunk_doc dp d ic =
     (let md = AList.update ''chunk_index'' (JInt (int (fst ic))) (metadata d)
      in \<lparr>page_content = snd ic,
          metadata = AList.update ''chunk_id'' (JStr (chunk_id dp md (fst ic))) md\<rparr>)"

text \<open>Lines 145 and 146 for one document: its chunks, numbered from 0.\<close>

definition chunks_of_doc :: "deps \<Rightarrow> document \<Rightarrow> document list" where
  "chunks_of_doc dp d = map (chunk_doc dp d) (enumerate 0 (split_text dp (page_content d)))"

definition chunk_docs :: "deps \<Rightarrow> document list \<Rightarrow> document list" where
  "chunk_docs dp docs = concat (map (chunks_of_doc dp) docs)"

section \<open>The ingestion call\<close>

text \<open>
  \<open>Returned_empty\<close> is \<open>return []\<close>. \<open>Submitted chunks\<close> is the call reaching line 170
  with \<open>chunked_docs = chunks\<close>, the batch handed to the vector store.
\<close>

datatype outcome = Returned_empty | Submitted "document list"

text \<open>
  The \<open>try\<close> block from line 83 on, for the value \<open>data\<close> that \<open>json.loads\<close> returned:
  every exception inside it ends in \<open>return []\<close>.
\<close>

definition ingest_data :: "deps \<Rightarrow> string \<times> json \<Rightarrow> json \<Rightarrow> outcome" where
  "ingest_data dp acc data =
     (case normalize data of
        None \<Rightarrow> Returned_empty
      | Some chats \<Rightarrow>
          (case bind (iter chats) (docs_of_chats dp acc) of
             Inl e \<Rightarrow> Returned_empty
           | Inr docs \<Rightarrow> if docs = [] then Returned_empty else Submitted (chunk_docs dp docs)))"

text \<open>
  Lines 39 to 60, then the \<open>try\<close> block. \<open>lambda_response\<close> is what \<open>invoke_lambda\<close>
  returned (\<open>JNull\<close> when it caught an exception), \<open>data\<close> the decoded file.
\<close>

definition s3_json_load_ingest :: "deps \<Rightarrow> json \<Rightarrow> json \<Rightarrow> outcome result" where
  "s3_json_load_ingest dp lambda_response data =
     (if \<not> truthy lambda_response then Inr Returned_empty
      else bind (category_two_probability lambda_response) (\<lambda>p.
           bind (accessibility_decision dp p) (\<lambda>acc.
           Inr (ingest_data dp acc data))))"

section \<open>Retriever filter (search\_wrapper.py, lines 63 to 65)\<close>

datatype condition = Eq json

text \<open>\<open>chat_user\<close> is \<open>Optional[str]\<close>; \<open>None\<close> and the empty string are false.\<close>

definition pinecone_filter :: "string option \<Rightarrow> (string \<times> condition) list" where
  "pinecone_filter chat_user =
     (case chat_user of
        None \<Rightarrow> []
      | Some u \<Rightarrow> if u = [] then [] else [(''chat_user'', Eq (JStr u))])"

text \<open>
  Modelled from the spec: the vector store that evaluates the filter is an outside
  service. Section 4.5: the search is "constrained to documents whose \<open>chat_user\<close> field
  equals the given filter value", and unconstrained when the filter is empty. A record
  satisfies a filter when each named field is present with the value asked for.
\<close>

fun satisfies :: "(string \<times> json) list \<Rightarrow> (string \<times> condition) list \<Rightarrow> bool" where
  "satisfies md [] = True"
| "satisfies md ((k, Eq v) # cs) = (map_of md k = Some v \<and> satisfies md cs)"

section \<open>Citation extraction (search\_wrapper.py, lines 82 to 115)\<close>

text \<open>
  The answer text is a Python \<open>str\<close>, a sequence of Unicode code points: a character is
  its code point, so that the full-width brackets U+3010 and U+3011 are characters.
  In a \<open>str\<close> pattern \<open>\d\<close> matches every character with a decimal digit value, and
  \<open>int\<close> reads the same characters. The table lists them as runs (first code point,
  length) in which the values 0 to 9 repeat; it is the table of Unicode 14.0, the one
  CPython 3.11 carries.
\<close>

definition nd_runs :: "(nat \<times> nat) list" where
  "nd_runs =
     [(48, 10), (1632, 10), (1776, 10), (1984, 10), (2406, 10), (2534, 10), (2662, 10),
      (2790, 10), (2918, 10), (3046, 10), (3174, 10), (3302, 10), (3430, 10), (3558, 10),
      (3664, 10), (3792, 10), (3872, 10), (4160, 10), (4240, 10), (6112, 10), (6160, 10),
      (6470, 10), (6608, 10), (6784, 10), (6800, 10), (6992, 10), (7088, 10), (7232, 10),
      (7248, 10), (42528, 10), (43216, 10), (43264, 10), (43472, 10), (43504, 10),
      (43600, 10), (44016, 10), (65296, 10), (66720, 10), (68912, 10), (69734, 10),
      (69872, 10), (69942, 10), (70096, 10), (70384, 10), (70736, 10), (70864, 10),
      (71248, 10), (71360, 10), (71472, 10), (71904, 10), (72016, 10), (72784, 10),
      (73040, 10), (73120, 10), (92768, 10), (92864, 10), (93008, 10), (120782, 50),
      (123200, 10), (123632, 10), (125264, 10), (130032, 10)]"

definition decimal :: "nat \<Rightarrow> nat option" where
  "decimal c =
     (case find (\<lambda>r. fst r \<le> c \<and> c < fst r + snd r) nd_runs of
        None \<Rightarrow> None
      | Some r \<Rightarrow> Some ((c - fst r) mod 10))"

definition is_digit :: "nat \<Rightarrow> bool" where
  "is_digit c = (decimal c \<noteq> None)"

definition is_open :: "nat \<Rightarrow> bool" where
  "is_open c = (c = 91 \<or> c = 12304)"

definition is_close :: "nat \<Rightarrow> bool" where
  "is_close c = (c = 93 \<or> c = 12305)"

text \<open>
  \<open>re.findall\<close> with the pattern of line 87, which has one group: the digit runs of the
  matches, from left to right. A match is an opening bracket, the longest run of digits
  after it (a shorter run is followed by a digit, never by a bracket) and a closing
  bracket; the search goes on after the match, or one character further when there is
  none here.
\<close>

function findall :: "nat list \<Rightarrow> nat list list" where
  "findall [] = []"
| "findall (c # cs) =
     (if is_open c \<and> takeWhile is_digit cs \<noteq> [] \<and> dropWhile is_digit cs \<noteq> []
         \<and> is_close (hd (dropWhile is_digit cs))
      then takeWhile is_digit cs # findall (tl (dropWhile is_digit cs))
      else findall cs)"
  by pat_completeness auto
termination
proof (relation "measure length")
  fix c :: nat and cs :: "nat list"
  have "length (dropWhile is_digit cs) \<le> length cs"
    by (rule length_dropWhile_le)
  then show "(tl (dropWhile is_digit cs), c # cs) \<in> measure length"
    by simp
qed simp_all

text \<open>
  Line 87 makes a \<open>set\<close> of the matched texts and line 90 iterates over it. Python does
  not fix the order in which a set of strings is iterated (it follows the hashes, which
  change from one process to the next): \<open>order\<close> is such an iteration when it lists each
  element of the set once.
\<close>

definition iterates :: "nat list list \<Rightarrow> nat list \<Rightarrow> bool" where
  "iterates order response_text \<longleftrightarrow> distinct order \<and> set order = set (findall response_text)"

text \<open>
  \<open>int\<close> on a text of decimal digits, the only texts that reach it here. It raises
  \<open>ValueError\<close> on a text of more than 4300 digits, leading zeros counted (the
  interpreter's default limit).
\<close>

definition int_max_str_digits :: nat where
  "int_max_str_digits = 4300"

definition digit_value :: "nat \<Rightarrow> int" where
  "digit_value c = (case decimal c of None \<Rightarrow> 0 | Some d \<Rightarrow> int d)"

definition int_of_digits :: "nat list \<Rightarrow> int" where
  "int_of_digits s = foldl (\<lambda>a c. 10 * a + digit_value c) 0 s"

definition py_int :: "nat list \<Rightarrow> int result" where
  "py_int s =
     (if s = [] \<or> \<not> list_all is_digit s \<or> int_max_str_digits < length s then Inl ValueError
      else Inr (int_of_digits s))"

record citation =
  source_id :: "nat list"
  title :: json
  chat_id :: json
  turn_id :: json
  timestamp :: json

text \<open>Lines 99 to 104: the dict built for the document cited by \<open>index_str\<close>.\<close>

definition ref_data :: "document \<Rightarrow> nat list \<Rightarrow> citation" where
  "ref_data doc index_str =
     \<lparr>source_id = [91] @ index_str @ [93],
      title = dict_get (metadata doc) ''title'' (JStr ''Unknown Title''),
      chat_id = dict_get (metadata doc) ''chat_id'' (JStr ''N/A''),
      turn_id = dict_get (metadata doc) ''turn_id'' (JStr ''N/A''),
      timestamp = dict_get (metadata doc) ''timestamp'' (JStr ''N/A'')\<rparr>"

text \<open>
  The body of the loop, lines 91 to 110: the reference appended for \<open>index_str\<close>, if
  any. A \<open>ValueError\<close> is caught and the loop goes on.
\<close>

definition reference_of :: "document list \<Rightarrow> nat list \<Rightarrow> citation option" where
  "reference_of docs index_str =
     (case py_int index_str of
        Inl e \<Rightarrow> None
      | Inr n \<Rightarrow>
          (let idx = n - 1
           in if 0 \<le> idx \<and> idx < int (length docs)
              then Some (ref_data (docs ! nat idx) index_str) else None))"

text \<open>\<open>re.search(r'\d+', s)\<close>: the first run of digits in \<open>s\<close>, \<open>None\<close> without a digit.\<close>

definition search_digits :: "nat list \<Rightarrow> nat list option" where
  "search_digits s =
     (let r = dropWhile (\<lambda>c. \<not> is_digit c) s
      in if r = [] then None else Some (takeWhile is_digit r))"

text \<open>
  The key function of line 113. \<open>.group()\<close> on \<open>None\<close> raises \<open>AttributeError\<close>; neither
  that nor a \<open>ValueError\<close> of \<open>int\<close> is caught here.
\<close>

definition marker_key :: "citation \<Rightarrow> int result" where
  "marker_key x =
     (case search_digits (source_id x) of
        None \<Rightarrow> Inl AttributeError
      | Some g \<Rightarrow> py_int g)"

fun first_error :: "'a result list \<Rightarrow> error option" where
  "first_error [] = None"
| "first_error (Inl e # rs) = Some e"
| "first_error (Inr x # rs) = first_error rs"

definition key_value :: "citation \<Rightarrow> int" where
  "key_value x = (case marker_key x of Inl e \<Rightarrow> 0 | Inr k \<Rightarrow> k)"

text \<open>
  \<open>list.sort\<close> with a key: the keys are computed first, in order, and the first exception
  leaves the call; the sort is stable.
\<close>

definition sort_references :: "citation list \<Rightarrow> citation list result" where
  "sort_references refs =
     (case first_error (map marker_key refs) of
        Some e \<Rightarrow> Inl e
      | None \<Rightarrow> Inr (sort_key key_value refs))"

text \<open>\<open>_extract_references\<close>, for the iteration \<open>order\<close> of the set of line 87.\<close>

definition extract_references :: "nat list list \<Rightarrow> document list \<Rightarrow> citation list result" where
  "extract_references order docs = sort_references (List.map_filter (reference_of docs) order)"

section \<open>Chunker\<close>

text \<open>
  Modelled from the spec: the splitter class (\<open>RecursiveCharacterTextSplitter\<close>) belongs
  to a third-party package, and only its construction (lines 135 to 139) and its call
  (line 145) are in the repository. Section 4.3 gives the algorithm:
  "recursively split on an ordered list of separator strategies from coarsest to finest
  [...] try the coarsest separator first; if any resulting piece still exceeds
  \<open>chunk_size\<close>, recursively re-split that piece using the next-finer separator;
  concatenate adjacent small pieces up to \<open>chunk_size\<close> before cutting, inserting
  \<open>chunk_overlap\<close> characters of trailing context from the previous piece at the start
  of the next whenever a new segment boundary is created, except for the very first
  segment."

  A split cuts the text in front of every occurrence of the separator, found from left
  to right, so that the pieces put together are the text again; the empty separator cuts
  at every character boundary. Empty pieces are dropped.
\<close>

function split_at :: "'a list \<Rightarrow> 'a list \<Rightarrow> 'a list \<Rightarrow> 'a list list" where
  "split_at sep cur [] = [cur]"
| "split_at sep cur (x # xs) =
     (if sep \<noteq> [] \<and> is_prefix sep (x # xs)
      then cur # split_at sep sep (drop (length sep) (x # xs))
      else split_at sep (cur @ [x]) xs)"
  by pat_completeness auto
termination
  by (relation "measure (\<lambda>(sep, cur, text). length text)") auto

text \<open>
  Modelled from the spec: the pieces of a text for one separator strategy, the character
  boundary being the empty separator.
\<close>

definition pieces :: "'a list \<Rightarrow> 'a list \<Rightarrow> 'a list list" where
  "pieces sep text =
     filter (\<lambda>p. p \<noteq> []) (if sep = [] then map (\<lambda>c. [c]) text else split_at sep [] text)"

text \<open>
  Modelled from the spec: "inserting \<open>chunk_overlap\<close> characters of trailing context
  from the previous piece at the start of the next". This is the trailing context kept
  when a segment is cut in front of a piece of \<open>n\<close>
  characters: pieces are dropped from the front of the segment until what is left has at
  most \<open>chunk_overlap\<close> characters and leaves room for the piece.
\<close>

fun shrink :: "nat \<Rightarrow> nat \<Rightarrow> nat \<Rightarrow> 'a list list \<Rightarrow> 'a list list" where
  "shrink chunk_size chunk_overlap n [] = []"
| "shrink chunk_size chunk_overlap n (c # cs) =
     (if chunk_overlap < length (concat (c # cs)) \<or> chunk_size < length (concat (c # cs)) + n
      then shrink chunk_size chunk_overlap n cs else c # cs)"

text \<open>
  Modelled from the spec: "concatenate adjacent small pieces up to \<open>chunk_size\<close> before
  cutting". Adjacent pieces are concatenated while they fit in \<open>chunk_size\<close>; \<open>cur\<close> holds the
  pieces of the segment being built. The first segment starts empty, each later one with
  the trailing context of the segment before it.
\<close>

fun merge_pieces :: "nat \<Rightarrow> nat \<Rightarrow> 'a list list \<Rightarrow> 'a list list \<Rightarrow> 'a list list" where
  "merge_pieces chunk_size chunk_overlap cur [] = (if cur = [] then [] else [concat cur])"
| "merge_pieces chunk_size chunk_overlap cur (d # ds) =
     (if chunk_size < length (concat cur) + length d
      then (if cur = [] then [] else [concat cur]) @
           merge_pieces chunk_size chunk_overlap
             (shrink chunk_size chunk_overlap (length d) cur @ [d]) ds
      else merge_pieces chunk_size chunk_overlap (cur @ [d]) ds)"

text \<open>
  Modelled from the spec: "if any resulting piece still exceeds \<open>chunk_size\<close>,
  recursively re-split that piece using the next-finer separator". These are the pieces
  of one split, in order: the small ones are gathered in \<open>good\<close> and merged; a
  piece that exceeds \<open>chunk_size\<close> closes the run before it and is split again by
  \<open>resplit\<close>, the splitter for the finer separators.
\<close>

fun collect ::
  "nat \<Rightarrow> nat \<Rightarrow> ('a list \<Rightarrow> 'a list list) \<Rightarrow> 'a list list \<Rightarrow> 'a list list \<Rightarrow> 'a list list" where
  "collect chunk_size chunk_overlap resplit good [] = merge_pieces chunk_size chunk_overlap [] good"
| "collect chunk_size chunk_overlap resplit good (p # ps) =
     (if length p \<le> chunk_size
      then collect chunk_size chunk_overlap resplit (good @ [p]) ps
      else merge_pieces chunk_size chunk_overlap [] good @ resplit p @
           collect chunk_size chunk_overlap resplit [] ps)"

text \<open>
  Modelled from the spec: "try the coarsest separator first". The separators come from
  coarsest to finest. With no separator left the text is an atomic
  token and is given out as it is.
\<close>

primrec recursive_split :: "nat \<Rightarrow> nat \<Rightarrow> 'a list list \<Rightarrow> 'a list \<Rightarrow> 'a list list" where
  "recursive_split chunk_size chunk_overlap [] =
     (\<lambda>text. if text = [] then [] else [text])"
| "recursive_split chunk_size chunk_overlap (sep # seps) =
     (\<lambda>text. collect chunk_size chunk_overlap (recursive_split chunk_size chunk_overlap seps) []
        (pieces sep text))"

text \<open>
  Modelled from the spec: "a single atomic token (no further separator applies)". A
  token is atomic for a separator list when no further separator applies to it: the
  list is empty, or splitting the token with the finest separator gives the token back.
\<close>

definition atomic :: "'a list list \<Rightarrow> 'a list \<Rightarrow> bool" where
  "atomic seps c \<longleftrightarrow> seps = [] \<or> pieces (last seps) c = [c]"

text \<open>
  The splitter of lines 135 to 139: \<open>chunk_size=150\<close>, \<open>chunk_overlap=30\<close> and the
  separators \<open>"\n\n"\<close>, \<open>"\n"\<close>, \<open>" "\<close>, \<open>""\<close>.
\<close>

definition separators :: "string list" where
  "separators = [[CHR 0x0A, CHR 0x0A], [CHR 0x0A], '' '', []]"

definition splitter_split_text :: "string \<Rightarrow> string list" where
  "splitter_split_text = recursive_split 150 30 separators"

section \<open>Notions used in the statements\<close>

text \<open>The identifier stored in a chunk, and the part of it that names the turn.\<close>

definition chunk_id_of :: "document \<Rightarrow> json" where
  "chunk_id_of c = dict_get (metadata c) ''chunk_id'' JNull"

definition id_prefix :: "deps \<Rightarrow> document \<Rightarrow> string" where
  "id_prefix dp d =
     py_str dp (dict_get (metadata d) ''chat_id'' JNull) @ ''::'' @
     py_str dp (dict_get (metadata d) ''turn_id'' JNull)"

text \<open>The batch an ingestion call submitted, empty when it submitted none.\<close>

fun submitted :: "outcome result \<Rightarrow> document list" where
  "submitted (Inr (Submitted chunks)) = chunks"
| "submitted _ = []"

text \<open>The citations an extraction returned, and the marker text \<open>[s]\<close> of line 100.\<close>

fun references :: "citation list result \<Rightarrow> citation list" where
  "references (Inr refs) = refs"
| "references (Inl e) = []"

definition bracketed :: "nat list \<Rightarrow> nat list" where
  "bracketed s = [91] @ s @ [93]"

text \<open>A text in which the separator matches at no position.\<close>

fun nomatch :: "'a list \<Rightarrow> 'a list \<Rightarrow> bool" where
  "nomatch sep [] = True"
| "nomatch sep (x # xs) = (\<not> is_prefix sep (x # xs) \<and> nomatch sep xs)"

section \<open>Sample values\<close>

definition sample_deps :: deps where
  "sample_deps =
     \<lparr>env_chat_engine = JStr ''chatgpt'', env_chat_user = JNull,
      float_round = (\<lambda>r. r), py_repr = (\<lambda>v. ''?''), split_text = splitter_split_text\<rparr>"

definition ustr :: "string \<Rightarrow> nat list" where
  "ustr s = map of_char s"

definition sample_response :: json where
  "sample_response =
     JObj [(''body'', JObj
       [(''category_one'', JObj [(''probability'', JFloat (1 / 10)), (''name'', JStr ''personal'')]),
        (''category_two'', JObj [(''probability'', JFloat (9 / 10)), (''name'', JStr ''work'')])])]"

definition sample_chat :: json where
  "sample_chat =
     JObj [(''chat_id'', JStr ''c1''), (''title'', JStr ''Reset''),
       (''messages'', JArr
          [JObj [(''turn_id'', JInt 1), (''turn_timestamp'', JStr ''2024-05-01''),
                 (''message'', JStr ''hello world'')],
           JObj [(''turn_id'', JInt 2)]])]"

definition sample_owned_chat :: json where
  "sample_owned_chat =
     JObj [(''chat_id'', JStr ''c2''), (''chat_user'', JStr ''alice''), (''title'', JStr ''Plans''),
       (''messages'', JArr [JObj [(''turn_id'', JInt 1), (''message'', JStr ''hello'')]])]"

definition sample_chat_without_messages :: json where
  "sample_chat_without_messages = JObj [(''chat_id'', JStr ''c0''), (''title'', JStr ''Empty'')]"

definition sample_turn_one :: document where
  "sample_turn_one =
     \<lparr>page_content = ''hello'', metadata = [(''chat_id'', JStr ''c1''), (''turn_id'', JInt 1)]\<rparr>"

definition sample_turn_two :: document where
  "sample_turn_two =
     \<lparr>page_content = ''world'', metadata = [(''chat_id'', JStr ''c1''), (''turn_id'', JInt 2)]\<rparr>"

definition sample_chat_without_turn_ids :: json where
  "sample_chat_without_turn_ids =
     JObj [(''chat_id'', JStr ''c1''),
       (''messages'', JArr [JObj [(''message'', JStr ''hello'')], JObj [(''message'', JStr ''world'')]])]"

definition sample_source :: document where
  "sample_source =
     \<lparr>page_content = ''hello world'',
       metadata =
         [(''chat_engine'', JStr ''chatgpt''), (''chat_account'', JNull),
          (''chat_id'', JStr ''c1''), (''title'', JStr ''Reset''),
          (''chat_creation_time'', JNull), (''turn_id'', JInt 1), (''author'', JNull),
          (''turn_timestamp'', JStr ''2024-05-01''), (''accessibility'', JStr ''work''),
          (''accessibility_confidence_score'', JFloat (9 / 10)),
          (''chunk_index'', JInt 0), (''chunk_id'', JStr ''c1::1::0'')]\<rparr>"

section \<open>Properties of the flattening loops\<close>

lemma bind_Inl [simp]: "bind (Inl e) f = Inl e"
  by (simp add: bind_def)

lemma bind_Inr [simp]: "bind (Inr x) f = f x"
  by (simp add: bind_def)

lemma bind_eq_Inr: "bind m f = Inr y \<longleftrightarrow> (\<exists>x. m = Inr x \<and> f x = Inr y)"
  by (cases m) simp_all

lemma doc_of_msg_meta:
  "doc_of_msg dp acc chat m = Inr d \<Longrightarrow> \<exists>msg. metadata d = meta_of dp acc chat msg"
  by (cases m) (auto split: json.splits)

lemma docs_of_msgs_meta:
  "docs_of_msgs dp acc chat ms = Inr ds \<Longrightarrow> d \<in> set ds \<Longrightarrow>
   \<exists>msg. metadata d = meta_of dp acc chat msg"
proof (induction ms arbitrary: ds)
  case Nil
  then show ?case by simp
next
  case (Cons m ms)
  from Cons.prems(1) obtain d0 ds0 where
    d0: "doc_of_msg dp acc chat m = Inr d0" and
    ds0: "docs_of_msgs dp acc chat ms = Inr ds0" and
    ds: "ds = d0 # ds0"
    by (auto simp: bind_eq_Inr)
  show ?case
  proof (cases "d = d0")
    case True
    with d0 show ?thesis by (simp add: doc_of_msg_meta)
  next
    case False
    with Cons.prems(2) ds have "d \<in> set ds0" by simp
    with Cons.IH ds0 show ?thesis by blast
  qed
qed


lemma docs_of_chat_meta:
  "docs_of_chat dp acc c = Inr ds \<Longrightarrow> d \<in> set ds \<Longrightarrow>
   \<exists>chat msg. metadata d = meta_of dp acc chat msg"
proof (cases c)
  case (JObj chat)
  assume a: "docs_of_chat dp acc c = Inr ds" "d \<in> set ds"
  show ?thesis
  proof (cases "map_of chat ''messages''")
    case None
    with a JObj show ?thesis by simp
  next
    case (Some ms)
    with a JObj obtain xs where "docs_of_msgs dp acc chat xs = Inr ds"
      by (auto simp: bind_eq_Inr)
    with a(2) docs_of_msgs_meta show ?thesis by blast
  qed
qed (auto split: if_splits)

lemma docs_of_chats_meta:
  "docs_of_chats dp acc cs = Inr ds \<Longrightarrow> d \<in> set ds \<Longrightarrow>
   \<exists>chat msg. metadata d = meta_of dp acc chat msg"
proof (induction cs arbitrary: ds)
  case Nil
  then show ?case by simp
next
  case (Cons c cs)
  from Cons.prems(1) obtain xs ys where
    xs: "docs_of_chat dp acc c = Inr xs" and
    ys: "docs_of_chats dp acc cs = Inr ys" and
    ds: "ds = xs @ ys"
    by (auto simp: bind_eq_Inr)
  from Cons.prems(2) ds consider "d \<in> set xs" | "d \<in> set ys" by auto
  then show ?case
  proof cases
    case 1
    with xs docs_of_chat_meta show ?thesis by blast
  next
    case 2
    with ys Cons.IH show ?thesis by blast
  qed
qed





lemma docs_of_chat_lacks: "lacks_messages c \<Longrightarrow> docs_of_chat dp acc c = Inr []"
  by (cases c) auto

lemma docs_of_chats_append:
  "docs_of_chats dp acc (xs @ ys) =
   bind (docs_of_chats dp acc xs) (\<lambda>ds. bind (docs_of_chats dp acc ys) (\<lambda>es. Inr (ds @ es)))"
proof (induction xs)
  case Nil
  show ?case by (cases "docs_of_chats dp acc ys") simp_all
next
  case (Cons c xs)
  show ?case
    by (cases "docs_of_chat dp acc c"; cases "docs_of_chats dp acc xs"; cases "docs_of_chats dp acc ys")
       (simp_all add: Cons.IH)
qed

lemma docs_of_chats_skip:
  assumes "lacks_messages c"
  shows "docs_of_chats dp acc (pre @ c # post) = docs_of_chats dp acc (pre @ post)"
proof -
  have "docs_of_chats dp acc (c # post) = docs_of_chats dp acc post"
    using assms by (cases "docs_of_chats dp acc post") (simp_all add: docs_of_chat_lacks)
  then show ?thesis by (simp only: docs_of_chats_append)
qed

section \<open>Metadata of documents and chunks\<close>

lemma chunk_doc_map_of:
  "map_of (metadata (chunk_doc dp d ic)) k =
     (if k = ''chunk_id''
      then Some (JStr (chunk_id dp (AList.update ''chunk_index'' (JInt (int (fst ic))) (metadata d)) (fst ic)))
      else if k = ''chunk_index'' then Some (JInt (int (fst ic)))
      else map_of (metadata d) k)"
  by (simp add: chunk_doc_def Let_def update_conv')

lemma chunk_docs_origin:
  "c \<in> set (chunk_docs dp docs) \<Longrightarrow> \<exists>d ic. d \<in> set docs \<and> c = chunk_doc dp d ic"
  by (auto simp: chunk_docs_def chunks_of_doc_def)

lemma ingest_data_Submitted:
  "ingest_data dp acc data = Submitted chunks \<Longrightarrow>
   \<exists>chats cs docs. normalize data = Some chats \<and> iter chats = Inr cs \<and>
      docs_of_chats dp acc cs = Inr docs \<and> docs \<noteq> [] \<and> chunks = chunk_docs dp docs"
  by (auto simp: ingest_data_def bind_eq_Inr split: option.splits sum.splits if_splits)


lemma meta_of_owner:
  "map_of (meta_of dp acc chat msg) ''chat_account'' = Some (dict_get chat ''chat_user'' (env_chat_user dp))"
  "map_of (meta_of dp acc chat msg) ''chat_user'' = None"
  by (simp_all add: meta_of_def)

lemma chunk_meta:
  assumes "ingest_data dp acc data = Submitted chunks" and "c \<in> set chunks"
  shows "\<exists>chat msg ic. \<forall>k. k \<noteq> ''chunk_id'' \<longrightarrow> k \<noteq> ''chunk_index'' \<longrightarrow>
            map_of (metadata c) k = map_of (meta_of dp acc chat msg) k"
proof -
  from assms(1) obtain cs docs where
    docs: "docs_of_chats dp acc cs = Inr docs" and chunks: "chunks = chunk_docs dp docs"
    by (blast dest: ingest_data_Submitted)
  from assms(2) chunks obtain d ic where d: "d \<in> set docs" and c: "c = chunk_doc dp d ic"
    by (blast dest: chunk_docs_origin)
  from docs d obtain chat msg where "metadata d = meta_of dp acc chat msg"
    by (blast dest: docs_of_chats_meta)
  with c show ?thesis by (auto simp: chunk_doc_map_of)
qed




section \<open>The sample values, evaluated\<close>

lemma split_hello: "splitter_split_text ''hello world'' = [''hello world'']"
  by (simp add: splitter_split_text_def separators_def pieces_def)

lemma split_empty: "splitter_split_text [] = []"
  by (simp add: splitter_split_text_def separators_def pieces_def)

lemma sample_probability: "category_two_probability sample_response = Inr (JFloat (9 / 10))"
  by (simp add: category_two_probability_def sample_response_def)

lemma sample_docs:
  "docs_of_chats sample_deps acc [sample_chat] =
     Inr [\<lparr>page_content = ''hello world'',
            metadata = meta_of sample_deps acc
              [(''chat_id'', JStr ''c1''), (''title'', JStr ''Reset''),
               (''messages'', JArr
                  [JObj [(''turn_id'', JInt 1), (''turn_timestamp'', JStr ''2024-05-01''),
                         (''message'', JStr ''hello world'')],
                   JObj [(''turn_id'', JInt 2)]])]
              [(''turn_id'', JInt 1), (''turn_timestamp'', JStr ''2024-05-01''),
               (''message'', JStr ''hello world'')]\<rparr>,
          \<lparr>page_content = [],
            metadata = meta_of sample_deps acc
              [(''chat_id'', JStr ''c1''), (''title'', JStr ''Reset''),
               (''messages'', JArr
                  [JObj [(''turn_id'', JInt 1), (''turn_timestamp'', JStr ''2024-05-01''),
                         (''message'', JStr ''hello world'')],
                   JObj [(''turn_id'', JInt 2)]])]
              [(''turn_id'', JInt 2)]\<rparr>]"
  by (simp add: sample_chat_def content_of_def dict_get_def)

section \<open>Accessibility label\<close>



lemma normalize_None_iff: "normalize data = None \<longleftrightarrow> unrecognized data"
  by (cases data) (auto split: option.splits)

lemma ingest_unrecognized: "unrecognized data \<Longrightarrow> ingest_data dp acc data = Returned_empty"
  by (simp add: ingest_data_def normalize_None_iff [symmetric])

lemma s3_json_load_ingest_classified:
  assumes "truthy resp" and "category_two_probability resp = Inr p"
    and "accessibility_decision dp p = Inr acc"
  shows "s3_json_load_ingest dp resp data = Inr (ingest_data dp acc data)"
  using assms by (simp add: s3_json_load_ingest_def)

lemma s3_json_load_ingest_Submitted:
  assumes "s3_json_load_ingest dp resp data = Inr (Submitted chunks)"
  shows "\<exists>acc. ingest_data dp acc data = Submitted chunks"
  using assms by (auto simp: s3_json_load_ingest_def bind_eq_Inr split: if_splits)

lemma sample_decision:
  "accessibility_decision sample_deps (JFloat (9 / 10)) = Inr (''work'', JFloat (9 / 10))"
  by (simp add: accessibility_decision_def)

lemma sample_truthy: "truthy sample_response"
  by (simp add: sample_response_def)

section \<open>Normalizer\<close>

text \<open>
  Claim C4. A dict with the key \<open>messages\<close> becomes the one-element sequence holding
  it; failing that, a dict with the key \<open>data\<close> becomes the value under that key;
  failing that, a list stays as it is. Every other shape is unrecognized: the normalizer
  gives nothing, and the ingestion call, once the classification has succeeded, returns
  the empty result and raises nothing.
\<close>

theorem normalizer_shapes:
  "(map_of d ''messages'' \<noteq> None \<longrightarrow> normalize (JObj d) = Some (JArr [JObj d]))
   \<and> (map_of d ''messages'' = None \<longrightarrow> map_of d ''data'' = Some v \<longrightarrow> normalize (JObj d) = Some v)
   \<and> normalize (JArr xs) = Some (JArr xs)
   \<and> (normalize data = None \<longleftrightarrow> unrecognized data)
   \<and> (unrecognized data \<longrightarrow>
        ingest_data dp acc data = Returned_empty
        \<and> (\<forall>resp p. truthy resp \<and> category_two_probability resp = Inr p
              \<and> accessibility_decision dp p = Inr acc \<longrightarrow>
              s3_json_load_ingest dp resp data = Inr Returned_empty))"
proof (intro conjI impI allI)
  assume u: "unrecognized data"
  show "ingest_data dp acc data = Returned_empty"
    using u by (rule ingest_unrecognized)
  fix resp p
  assume "truthy resp \<and> category_two_probability resp = Inr p \<and> accessibility_decision dp p = Inr acc"
  then have "s3_json_load_ingest dp resp data = Inr (ingest_data dp acc data)"
    by (simp add: s3_json_load_ingest_classified)
  then show "s3_json_load_ingest dp resp data = Inr Returned_empty"
    using u by (simp add: ingest_unrecognized)
qed (simp_all add: normalize_None_iff)

theorem normalizer_shapes_witness:
  "normalize sample_chat = Some (JArr [sample_chat])
   \<and> normalize (JObj [(''data'', JArr [sample_chat])]) = Some (JArr [sample_chat])
   \<and> normalize (JArr [sample_chat]) = Some (JArr [sample_chat])
   \<and> unrecognized (JStr ''text'')
   \<and> normalize (JStr ''text'') = None
   \<and> s3_json_load_ingest sample_deps sample_response (JStr ''text'') = Inr Returned_empty"
proof -
  obtain d where d: "sample_chat = JObj d" "map_of d ''messages'' \<noteq> None"
    by (simp add: sample_chat_def)
  from normalizer_shapes [of d] d have a: "normalize sample_chat = Some (JArr [sample_chat])"
    by simp
  have "map_of [(''data'', JArr [sample_chat])] ''messages'' = None"
    and "map_of [(''data'', JArr [sample_chat])] ''data'' = Some (JArr [sample_chat])"
    by simp_all
  with normalizer_shapes [of "[(''data'', JArr [sample_chat])]" "JArr [sample_chat]"]
  have b: "normalize (JObj [(''data'', JArr [sample_chat])]) = Some (JArr [sample_chat])"
    by blast
  from normalizer_shapes [of _ _ "[sample_chat]"]
  have c: "normalize (JArr [sample_chat]) = Some (JArr [sample_chat])"
    by blast
  have u: "unrecognized (JStr ''text'')"
    by simp
  from normalizer_shapes [of _ _ _ "JStr ''text''" sample_deps "(''work'', JFloat (9 / 10))"] u
  have n: "normalize (JStr ''text'') = None"
    and e: "\<forall>resp p. truthy resp \<and> category_two_probability resp = Inr p
              \<and> accessibility_decision sample_deps p = Inr (''work'', JFloat (9 / 10)) \<longrightarrow>
              s3_json_load_ingest sample_deps resp (JStr ''text'') = Inr Returned_empty"
    by blast+
  from e sample_truthy sample_probability sample_decision
  have "s3_json_load_ingest sample_deps sample_response (JStr ''text'') = Inr Returned_empty"
    by blast
  with a b c u n show ?thesis
    by blast
qed

section \<open>Turn flattener\<close>



lemma chunk_owner:
  assumes "ingest_data dp acc data = Submitted chunks" and "c \<in> set chunks"
  shows "(\<exists>chat. map_of (metadata c) ''chat_account'' = Some (dict_get chat ''chat_user'' (env_chat_user dp)))
     \<and> map_of (metadata c) ''chat_user'' = None"
proof -
  from chunk_meta [OF assms] obtain chat msg where
      m: "\<forall>k. k \<noteq> ''chunk_id'' \<longrightarrow> k \<noteq> ''chunk_index'' \<longrightarrow>
         map_of (metadata c) k = map_of (meta_of dp acc chat msg) k"
    by auto
  have "map_of (metadata c) ''chat_account'' = map_of (meta_of dp acc chat msg) ''chat_account''"
    using m by simp
  moreover have "map_of (metadata c) ''chat_user'' = map_of (meta_of dp acc chat msg) ''chat_user''"
    using m by simp
  ultimately show ?thesis
    by (auto simp: meta_of_owner)
qed

lemma sample_ingest:
  "s3_json_load_ingest sample_deps sample_response (JArr [sample_chat_without_messages, sample_chat]) =
     Inr (Submitted
       [\<lparr>page_content = ''hello world'',
         metadata =
           [(''chat_engine'', JStr ''chatgpt''), (''chat_account'', JNull),
            (''chat_id'', JStr ''c1''), (''title'', JStr ''Reset''),
            (''chat_creation_time'', JNull), (''turn_id'', JInt 1), (''author'', JNull),
            (''turn_timestamp'', JStr ''2024-05-01''), (''accessibility'', JStr ''work''),
            (''accessibility_confidence_score'', JFloat (9 / 10)),
            (''chunk_index'', JInt 0), (''chunk_id'', JStr ''c1::1::0'')]\<rparr>])"
proof -
  have "s3_json_load_ingest sample_deps sample_response (JArr [sample_chat_without_messages, sample_chat])
      = Inr (ingest_data sample_deps (''work'', JFloat (9 / 10)) (JArr [sample_chat_without_messages, sample_chat]))"
    using sample_truthy sample_probability sample_decision by (rule s3_json_load_ingest_classified)
  moreover have "docs_of_chats sample_deps (''work'', JFloat (9 / 10)) [sample_chat_without_messages, sample_chat]
      = docs_of_chats sample_deps (''work'', JFloat (9 / 10)) [sample_chat]"
    using docs_of_chats_skip [of sample_chat_without_messages sample_deps _ "[]" "[sample_chat]"]
    by (simp add: sample_chat_without_messages_def)
  moreover have "split_text sample_deps = splitter_split_text"
    by (simp add: sample_deps_def)
  moreover have "env_chat_engine sample_deps = JStr ''chatgpt''" "env_chat_user sample_deps = JNull"
    by (simp_all add: sample_deps_def)
  ultimately show ?thesis
    by (simp add: ingest_data_def sample_docs chunk_docs_def chunks_of_doc_def split_hello split_empty
        chunk_doc_def chunk_id_def meta_of_def dict_get_def str_int_def str_nat.simps digit_char_def
        del: docs_of_chats.simps)
qed

section \<open>Decimal text and chunk identifiers\<close>

lemma digit_char_inj: "n < 10 \<Longrightarrow> m < 10 \<Longrightarrow> digit_char n = digit_char m \<Longrightarrow> n = m"
proof -
  assume a: "n < 10" "m < 10" "digit_char n = digit_char m"
  have "distinct ''0123456789''" by simp
  moreover have "n < length ''0123456789''" "m < length ''0123456789''" using a by simp_all
  ultimately show "n = m"
    using a(3) unfolding digit_char_def by (simp only: nth_eq_iff_index_eq)
qed

lemma digit_char_digit: "n < 10 \<Longrightarrow> digit_char n \<in> set ''0123456789''"
proof -
  assume "n < 10"
  then have "n < length ''0123456789''" by simp
  then show ?thesis unfolding digit_char_def by (rule nth_mem)
qed

lemma str_nat_nonempty: "str_nat n \<noteq> []"
  by (subst str_nat.simps) simp

lemma str_nat_digits: "set (str_nat n) \<subseteq> set ''0123456789''"
proof (induction n rule: str_nat.induct)
  case (1 n)
  show ?case
  proof (cases "n < 10")
    case True
    then show ?thesis
      using digit_char_digit [of n] by (subst str_nat.simps) simp
  next
    case False
    have "n mod 10 < 10" by simp
    then have "digit_char (n mod 10) \<in> set ''0123456789''" by (rule digit_char_digit)
    with False "1.IH" show ?thesis
      by (subst str_nat.simps) simp
  qed
qed

lemma str_nat_no_colon: "CHR '':'' \<notin> set (str_nat n)"
  using str_nat_digits [of n] by auto

lemma str_nat_inj: "str_nat n = str_nat m \<Longrightarrow> n = m"
proof (induction n arbitrary: m rule: str_nat.induct)
  case (1 n)
  show ?case
  proof (cases "n < 10")
    case n: True
    show ?thesis
    proof (cases "m < 10")
      case True
      with n "1.prems" have "digit_char n = digit_char m"
        by (simp add: str_nat.simps)
      with n True show ?thesis by (rule digit_char_inj)
    next
      case False
      then have "str_nat m = str_nat (m div 10) @ [digit_char (m mod 10)]"
        by (subst str_nat.simps) simp
      moreover have "str_nat n = [digit_char n]"
        using n by (subst str_nat.simps) simp
      ultimately have "str_nat (m div 10) = []"
        using "1.prems" by simp
      then show ?thesis by (simp add: str_nat_nonempty)
    qed
  next
    case n: False
    then have sn: "str_nat n = str_nat (n div 10) @ [digit_char (n mod 10)]"
      by (subst str_nat.simps) simp
    show ?thesis
    proof (cases "m < 10")
      case True
      then have "str_nat m = [digit_char m]"
        by (subst str_nat.simps) simp
      with sn "1.prems" have "str_nat (n div 10) = []" by simp
      then show ?thesis by (simp add: str_nat_nonempty)
    next
      case False
      then have "str_nat m = str_nat (m div 10) @ [digit_char (m mod 10)]"
        by (subst str_nat.simps) simp
      with sn "1.prems" have e: "str_nat (n div 10) = str_nat (m div 10)"
        and d: "digit_char (n mod 10) = digit_char (m mod 10)"
        by simp_all
      from n e have "n div 10 = m div 10" by (rule "1.IH")
      moreover have "n mod 10 = m mod 10"
        using d by (intro digit_char_inj) simp_all
      ultimately show ?thesis
        by (metis div_mult_mod_eq)
    qed
  qed
qed

lemma suffix_after_colons:
  assumes "a @ ''::'' @ x = b @ ''::'' @ y"
    and "CHR '':'' \<notin> set x" and "CHR '':'' \<notin> set y"
  shows "a = b \<and> x = y"
proof -
  let ?P = "\<lambda>c. c \<noteq> CHR '':''"
  have r: "rev x @ CHR '':'' # (CHR '':'' # rev a) = rev y @ CHR '':'' # (CHR '':'' # rev b)"
    using arg_cong [OF assms(1), of rev] by simp
  have "takeWhile ?P (rev x @ CHR '':'' # (CHR '':'' # rev a)) = rev x"
    using assms(2) by (auto simp: takeWhile_tail)
  moreover have "takeWhile ?P (rev y @ CHR '':'' # (CHR '':'' # rev b)) = rev y"
    using assms(3) by (auto simp: takeWhile_tail)
  ultimately have xy: "rev x = rev y"
    using r by simp
  with r have "rev a = rev b" by simp
  with xy show ?thesis by simp
qed

lemma chunk_id_of_chunk_doc:
  "chunk_id_of (chunk_doc dp d ic) = JStr (id_prefix dp d @ ''::'' @ str_nat (fst ic))"
  by (simp add: chunk_id_of_def dict_get_def chunk_doc_map_of chunk_id_def id_prefix_def update_conv')

lemma map_enumerate_fst: "map (\<lambda>ic. f (fst ic)) (enumerate 0 xs) = map f [0..<length xs]"
proof -
  have "map (\<lambda>ic. f (fst ic)) (enumerate 0 xs) = map f (map fst (enumerate 0 xs))"
    by (simp only: map_map o_def)
  also have "\<dots> = map f [0..<length xs]"
    by (simp only: map_fst_enumerate) simp
  finally show ?thesis .
qed

lemma chunk_ids_of_doc:
  "map chunk_id_of (chunks_of_doc dp d) =
     map (\<lambda>i. JStr (id_prefix dp d @ ''::'' @ str_nat i)) [0..<length (split_text dp (page_content d))]"
proof -
  have "map chunk_id_of (chunks_of_doc dp d) =
      map (\<lambda>ic. JStr (id_prefix dp d @ ''::'' @ str_nat (fst ic)))
        (enumerate 0 (split_text dp (page_content d)))"
    by (simp add: chunks_of_doc_def chunk_id_of_chunk_doc o_def)
  also have "\<dots> = map (\<lambda>i. JStr (id_prefix dp d @ ''::'' @ str_nat i))
      [0..<length (split_text dp (page_content d))]"
    by (rule map_enumerate_fst [of "\<lambda>i. JStr (id_prefix dp d @ ''::'' @ str_nat i)"])
  finally show ?thesis .
qed

lemma chunk_id_inj:
  "JStr (p @ ''::'' @ str_nat i) = JStr (q @ ''::'' @ str_nat j) \<Longrightarrow> p = q \<and> i = j"
  using suffix_after_colons [of p "str_nat i" q "str_nat j"]
  by (auto simp: str_nat_no_colon dest: str_nat_inj)

lemma distinct_chunk_ids_of_doc: "distinct (map chunk_id_of (chunks_of_doc dp d))"
  unfolding chunk_ids_of_doc
  by (rule distinct_map [THEN iffD2]) (auto simp: inj_on_def dest: str_nat_inj)

lemma chunk_ids_of_docs:
  "map chunk_id_of (chunk_docs dp docs) = concat (map (\<lambda>d. map chunk_id_of (chunks_of_doc dp d)) docs)"
  by (simp add: chunk_docs_def map_concat o_def)

lemma distinct_chunk_ids_of_docs:
  "distinct (map (id_prefix dp) docs) \<Longrightarrow> distinct (map chunk_id_of (chunk_docs dp docs))"
proof (induction docs)
  case Nil
  show ?case by (simp add: chunk_docs_def)
next
  case (Cons d docs)
  have ih: "distinct (map chunk_id_of (chunk_docs dp docs))"
    using Cons by simp
  have disj: "set (map chunk_id_of (chunks_of_doc dp d)) \<inter> set (map chunk_id_of (chunk_docs dp docs)) = {}"
  proof (rule ccontr)
    assume "\<not> ?thesis"
    then obtain v where v1: "v \<in> set (map chunk_id_of (chunks_of_doc dp d))"
      and v2: "v \<in> set (map chunk_id_of (chunk_docs dp docs))"
      by blast
    from v1 obtain i where i: "v = JStr (id_prefix dp d @ ''::'' @ str_nat i)"
      unfolding chunk_ids_of_doc by auto
    from v2 obtain e where e: "e \<in> set docs" "v \<in> set (map chunk_id_of (chunks_of_doc dp e))"
      unfolding chunk_ids_of_docs by auto
    from e(2) obtain j where j: "v = JStr (id_prefix dp e @ ''::'' @ str_nat j)"
      unfolding chunk_ids_of_doc by auto
    from i j have "JStr (id_prefix dp d @ ''::'' @ str_nat i) = JStr (id_prefix dp e @ ''::'' @ str_nat j)"
      by (simp only:)
    then have "id_prefix dp d = id_prefix dp e"
      by (rule chunk_id_inj [THEN conjunct1])
    with e(1) Cons.prems show False
      by auto
  qed
  have "map chunk_id_of (chunk_docs dp (d # docs)) =
      map chunk_id_of (chunks_of_doc dp d) @ map chunk_id_of (chunk_docs dp docs)"
    by (simp add: chunk_docs_def)
  with ih disj distinct_chunk_ids_of_doc [of dp d] show ?case
    by (simp only: distinct_append)
qed

lemma sample_two_docs:
  "docs_of_chats sample_deps acc [sample_chat_without_turn_ids] =
     Inr [\<lparr>page_content = ''hello'',
            metadata = meta_of sample_deps acc
              [(''chat_id'', JStr ''c1''),
               (''messages'', JArr [JObj [(''message'', JStr ''hello'')], JObj [(''message'', JStr ''world'')]])]
              [(''message'', JStr ''hello'')]\<rparr>,
          \<lparr>page_content = ''world'',
            metadata = meta_of sample_deps acc
              [(''chat_id'', JStr ''c1''),
               (''messages'', JArr [JObj [(''message'', JStr ''hello'')], JObj [(''message'', JStr ''world'')]])]
              [(''message'', JStr ''world'')]\<rparr>]"
  by (simp add: sample_chat_without_turn_ids_def content_of_def dict_get_def)

lemma split_word:
  "splitter_split_text ''hello'' = [''hello'']" "splitter_split_text ''world'' = [''world'']"
  by (simp_all add: splitter_split_text_def separators_def pieces_def)

lemma sample_colliding_ids:
  "map chunk_id_of (submitted (s3_json_load_ingest sample_deps sample_response sample_chat_without_turn_ids))
     = [JStr ''c1::None::0'', JStr ''c1::None::0'']"
proof -
  have "s3_json_load_ingest sample_deps sample_response sample_chat_without_turn_ids
      = Inr (ingest_data sample_deps (''work'', JFloat (9 / 10)) sample_chat_without_turn_ids)"
    using sample_truthy sample_probability sample_decision by (rule s3_json_load_ingest_classified)
  moreover have "normalize sample_chat_without_turn_ids = Some (JArr [sample_chat_without_turn_ids])"
    by (simp add: sample_chat_without_turn_ids_def)
  moreover have "split_text sample_deps = splitter_split_text"
    by (simp add: sample_deps_def)
  ultimately show ?thesis
    by (simp add: ingest_data_def sample_two_docs chunk_docs_def chunks_of_doc_def split_word
        chunk_id_of_chunk_doc id_prefix_def meta_of_def dict_get_def str_nat.simps digit_char_def
        del: docs_of_chats.simps)
qed

section \<open>Chunk identifiers\<close>

text \<open>
  Claim C3, as stated, fails: the identifiers of a batch need not be pairwise distinct. A
  chat whose two turns carry no \<open>turn_id\<close> gives the identifier \<open>c1::None::0\<close> twice.
\<close>

theorem chunk_ids_distinct_in_batch_counterexample:
  "\<not> distinct (map chunk_id_of
       (submitted (s3_json_load_ingest sample_deps sample_response sample_chat_without_turn_ids)))"
  by (simp add: sample_colliding_ids)

text \<open>
  Claim C3, amended. The chunks of one document have the identifiers
  \<open>chat_id::turn_id::i\<close> for \<open>i\<close> from 0 to the number of its chunks, written as an
  f-string writes them, and these are pairwise distinct. The identifiers of a batch are
  pairwise distinct when no two documents of the batch have the same \<open>chat_id::turn_id\<close>
  text. The identifiers are a function of the input: the same input gives the same
  sequence.
\<close>

theorem chunk_ids_of_documents:
  "map chunk_id_of (chunks_of_doc dp d) =
     map (\<lambda>i. JStr (py_str dp (dict_get (metadata d) ''chat_id'' JNull) @ ''::'' @
                     py_str dp (dict_get (metadata d) ''turn_id'' JNull) @ ''::'' @ str_nat i))
       [0..<length (split_text dp (page_content d))]
   \<and> distinct (map chunk_id_of (chunks_of_doc dp d))
   \<and> (distinct (map (id_prefix dp) docs) \<longrightarrow> distinct (map chunk_id_of (chunk_docs dp docs)))
   \<and> (data' = data \<longrightarrow>
        map chunk_id_of (submitted (s3_json_load_ingest dp resp data')) =
        map chunk_id_of (submitted (s3_json_load_ingest dp resp data)))"
  using chunk_ids_of_doc [of dp d] distinct_chunk_ids_of_doc [of dp d]
    distinct_chunk_ids_of_docs [of dp docs]
  by (simp add: id_prefix_def)

theorem chunk_ids_of_documents_witness:
  "distinct (map (id_prefix sample_deps) [sample_turn_one, sample_turn_two])
   \<and> map chunk_id_of (chunk_docs sample_deps [sample_turn_one, sample_turn_two]) =
       [JStr ''c1::1::0'', JStr ''c1::2::0'']
   \<and> distinct (map chunk_id_of (chunk_docs sample_deps [sample_turn_one, sample_turn_two]))
   \<and> map chunk_id_of (submitted (s3_json_load_ingest sample_deps sample_response sample_chat)) =
       map chunk_id_of (submitted (s3_json_load_ingest sample_deps sample_response sample_chat))"
proof -
  have p: "map (id_prefix sample_deps) [sample_turn_one, sample_turn_two] = [''c1::1'', ''c1::2'']"
    by (simp add: id_prefix_def sample_turn_one_def sample_turn_two_def dict_get_def str_int_def
        str_nat.simps digit_char_def)
  then have h: "distinct (map (id_prefix sample_deps) [sample_turn_one, sample_turn_two])"
    by simp
  have s: "split_text sample_deps = splitter_split_text"
    by (simp add: sample_deps_def)
  have one: "map chunk_id_of (chunks_of_doc sample_deps sample_turn_one) = [JStr ''c1::1::0'']"
    using chunk_ids_of_documents [of sample_deps sample_turn_one]
    by (simp add: s sample_turn_one_def split_word dict_get_def str_int_def str_nat.simps digit_char_def)
  have two: "map chunk_id_of (chunks_of_doc sample_deps sample_turn_two) = [JStr ''c1::2::0'']"
    using chunk_ids_of_documents [of sample_deps sample_turn_two]
    by (simp add: s sample_turn_two_def split_word dict_get_def str_int_def str_nat.simps digit_char_def)
  from one two
  have ids: "map chunk_id_of (chunk_docs sample_deps [sample_turn_one, sample_turn_two]) =
       [JStr ''c1::1::0'', JStr ''c1::2::0'']"
    by (simp add: chunk_docs_def)
  from chunk_ids_of_documents [of sample_deps _ "[sample_turn_one, sample_turn_two]"] h
  have "distinct (map chunk_id_of (chunk_docs sample_deps [sample_turn_one, sample_turn_two]))"
    by blast
  with h ids show ?thesis
    by simp
qed

section \<open>Citations\<close>

lemma not_digit_brackets [simp]: "\<not> is_digit 91" "\<not> is_digit 93"
  by (simp_all add: is_digit_def decimal_def nd_runs_def)

lemma is_digit_ascii:
  "is_digit 48" "is_digit 49" "is_digit 50" "is_digit 51"
  by (simp_all add: is_digit_def decimal_def nd_runs_def)

lemma digit_value_ascii:
  "digit_value 48 = 0" "digit_value 49 = 1" "digit_value 50 = 2" "digit_value 51 = 3"
  by (simp_all add: digit_value_def decimal_def nd_runs_def)

lemma findall_digits:
  "s \<in> set (findall answer) \<Longrightarrow> s \<noteq> [] \<and> list_all is_digit s"
proof (induction answer rule: findall.induct)
  case 1
  then show ?case by simp
next
  case (2 c cs)
  show ?case
  proof (cases "is_open c \<and> takeWhile is_digit cs \<noteq> [] \<and> dropWhile is_digit cs \<noteq> []
         \<and> is_close (hd (dropWhile is_digit cs))")
    case True
    with "2.prems" consider "s = takeWhile is_digit cs" | "s \<in> set (findall (tl (dropWhile is_digit cs)))"
      by auto
    then show ?thesis
    proof cases
      case 1
      with True show ?thesis
        by (auto simp: list_all_iff dest: set_takeWhileD)
    next
      case 2
      with True "2.IH"(1) show ?thesis by blast
    qed
  next
    case False
    with "2.prems" have "s \<in> set (findall cs)" by auto
    with False "2.IH"(2) show ?thesis by blast
  qed
qed

lemma py_int_Inr_iff:
  "py_int s = Inr n \<longleftrightarrow>
     s \<noteq> [] \<and> list_all is_digit s \<and> length s \<le> int_max_str_digits \<and> n = int_of_digits s"
  by (auto simp: py_int_def)

lemma search_digits_bracketed:
  assumes "s \<noteq> []" and "list_all is_digit s"
  shows "search_digits ([91] @ s @ [93]) = Some s"
proof -
  from assms obtain c cs where s: "s = c # cs" and c: "is_digit c"
    by (cases s) auto
  have "dropWhile (\<lambda>c. \<not> is_digit c) ([91] @ s @ [93]) = s @ [93]"
    using s c by simp
  moreover have "takeWhile is_digit (s @ [93]) = s"
    using assms(2) by (simp add: list_all_iff takeWhile_tail)
  ultimately show ?thesis
    using assms(1) by (simp add: search_digits_def Let_def)
qed

lemma reference_of_Some_iff:
  "reference_of docs s = Some r \<longleftrightarrow>
     (\<exists>n. py_int s = Inr n \<and> 1 \<le> n \<and> n \<le> int (length docs)
          \<and> r = ref_data (docs ! nat (n - 1)) s)"
  by (auto simp: reference_of_def Let_def split: sum.splits)

lemma reference_of_None_iff:
  "reference_of docs s = None \<longleftrightarrow>
     \<not> (\<exists>n. py_int s = Inr n \<and> 1 \<le> n \<and> n \<le> int (length docs))"
  by (auto simp: reference_of_def Let_def split: sum.splits)

lemma source_id_ref_data [simp]: "source_id (ref_data doc s) = bracketed s"
  by (simp add: ref_data_def bracketed_def)

lemma marker_key_reference:
  assumes "reference_of docs s = Some r"
  shows "marker_key r = Inr (int_of_digits s) \<and> key_value r = int_of_digits s
         \<and> source_id r = bracketed s"
proof -
  from assms obtain n where n: "py_int s = Inr n" and r: "r = ref_data (docs ! nat (n - 1)) s"
    by (auto simp: reference_of_Some_iff)
  from n have d: "s \<noteq> []" "list_all is_digit s" and v: "n = int_of_digits s"
    by (simp_all add: py_int_Inr_iff)
  from d have "search_digits (source_id r) = Some s"
    using r by (simp add: bracketed_def search_digits_bracketed del: append.simps)
  with n v have "marker_key r = Inr (int_of_digits s)"
    by (simp add: marker_key_def)
  with r show ?thesis
    by (simp add: key_value_def)
qed

lemma map_filter_references:
  "r \<in> set (List.map_filter (reference_of docs) order) \<longleftrightarrow>
     (\<exists>s \<in> set order. reference_of docs s = Some r)"
  by (force simp: List.map_filter_def)

lemma first_error_None: "(\<And>x. x \<in> set xs \<Longrightarrow> \<exists>k. x = Inr k) \<Longrightarrow> first_error xs = None"
proof (induction xs)
  case Nil
  show ?case by simp
next
  case (Cons x xs)
  from Cons.prems [of x] obtain k where "x = Inr k" by auto
  moreover have "first_error xs = None"
    by (rule Cons.IH) (simp add: Cons.prems)
  ultimately show ?case by simp
qed

lemma extract_references_total:
  "extract_references order docs =
     Inr (sort_key key_value (List.map_filter (reference_of docs) order))"
proof -
  have "first_error (map marker_key (List.map_filter (reference_of docs) order)) = None"
  proof (rule first_error_None)
    fix x
    assume "x \<in> set (map marker_key (List.map_filter (reference_of docs) order))"
    then obtain r s where "x = marker_key r" "reference_of docs s = Some r"
      by (auto simp: map_filter_references)
    then show "\<exists>k. x = Inr k"
      by (auto dest: marker_key_reference)
  qed
  then show ?thesis
    by (simp add: extract_references_def sort_references_def)
qed

lemma source_ids_map_filter:
  "map source_id (List.map_filter (reference_of docs) order) =
     map bracketed (filter (\<lambda>s. reference_of docs s \<noteq> None) order)"
proof (induction order)
  case Nil
  show ?case by (simp add: List.map_filter_def)
next
  case (Cons s order)
  show ?case
  proof (cases "reference_of docs s")
    case None
    with Cons show ?thesis by (simp add: List.map_filter_def)
  next
    case (Some r)
    then have "source_id r = bracketed s"
      by (simp add: marker_key_reference)
    with Some Cons show ?thesis by (simp add: List.map_filter_def)
  qed
qed

lemma bracketed_inj: "bracketed s = bracketed t \<Longrightarrow> s = t"
  by (simp add: bracketed_def)

lemma distinct_source_ids:
  assumes "distinct order"
  shows "distinct (map source_id (List.map_filter (reference_of docs) order))"
  unfolding source_ids_map_filter
  by (rule distinct_map [THEN iffD2]) (auto simp: assms inj_on_def dest: bracketed_inj)

lemma distinct_map_sort_key:
  "distinct (map g (sort_key f xs)) \<longleftrightarrow> distinct (map g xs)"
  by (simp add: distinct_map)

lemma sorted_extract:
  "sorted (map key_value (sort_key key_value refs))"
  by (rule sorted_sort_key)

lemma resolved_iff:
  assumes "s \<noteq> []" and "list_all is_digit s"
  shows "reference_of docs s \<noteq> None \<longleftrightarrow>
     length s \<le> int_max_str_digits \<and> 1 \<le> int_of_digits s \<and> int_of_digits s \<le> int (length docs)"
  using assms by (auto simp: reference_of_None_iff py_int_Inr_iff)

lemma long_marker_dropped:
  "int_max_str_digits < length s \<Longrightarrow> reference_of docs s = None"
  by (simp add: reference_of_def py_int_def)

lemma iterates_digits:
  "iterates order answer \<Longrightarrow> s \<in> set order \<Longrightarrow> s \<noteq> [] \<and> list_all is_digit s"
  by (simp add: iterates_def findall_digits)

lemma set_source_ids:
  "set (map source_id (sort_key key_value (List.map_filter (reference_of docs) order))) =
     bracketed ` {s \<in> set order. reference_of docs s \<noteq> None}"
proof -
  have "set (map source_id (sort_key key_value (List.map_filter (reference_of docs) order))) =
      set (map source_id (List.map_filter (reference_of docs) order))"
    by simp
  also have "\<dots> = bracketed ` {s \<in> set order. reference_of docs s \<noteq> None}"
    by (simp only: source_ids_map_filter) auto
  finally show ?thesis .
qed

lemma length_map_filter_le: "length (List.map_filter f xs) \<le> length xs"
  by (simp add: List.map_filter_def)

lemma key_values_in_range:
  assumes "r \<in> set (List.map_filter (reference_of docs) order)"
  shows "\<exists>s \<in> set order. r = ref_data (docs ! nat (int_of_digits s - 1)) s
           \<and> key_value r = int_of_digits s
           \<and> 1 \<le> int_of_digits s \<and> int_of_digits s \<le> int (length docs)"
proof -
  from assms obtain s where s: "s \<in> set order" "reference_of docs s = Some r"
    by (auto simp: map_filter_references)
  from s(2) have "r = ref_data (docs ! nat (int_of_digits s - 1)) s"
    and "1 \<le> int_of_digits s" and "int_of_digits s \<le> int (length docs)"
    by (auto simp: reference_of_Some_iff py_int_Inr_iff)
  moreover from s(2) have "key_value r = int_of_digits s"
    by (simp add: marker_key_reference)
  ultimately show ?thesis
    using s(1) by blast
qed

lemma card_key_values:
  "card (key_value ` set (List.map_filter (reference_of docs) order)) \<le> length docs"
proof -
  have "key_value ` set (List.map_filter (reference_of docs) order) \<subseteq> {1..int (length docs)}"
  proof
    fix k
    assume "k \<in> key_value ` set (List.map_filter (reference_of docs) order)"
    then obtain r where r: "r \<in> set (List.map_filter (reference_of docs) order)" "k = key_value r"
      by blast
    from key_values_in_range [OF r(1)] r(2) show "k \<in> {1..int (length docs)}"
      by auto
  qed
  then have "card (key_value ` set (List.map_filter (reference_of docs) order))
      \<le> card {1..int (length docs)}"
    by (rule card_mono [rotated]) simp
  then show ?thesis by simp
qed

lemma ustr_digits: "ustr ''1'' = [49]" "ustr ''01'' = [48, 49]" "ustr ''3'' = [51]" "ustr ''2'' = [50]"
  by (simp_all add: ustr_def)

lemma findall_sample: "findall (ustr ''[1][01]'') = [ustr ''1'', ustr ''01'']"
  by (simp add: ustr_def is_open_def is_close_def is_digit_ascii)

lemma findall_sample_two: "findall (ustr ''A [1] and B [3].'') = [ustr ''1'', ustr ''3'']"
  by (simp add: ustr_def is_open_def is_close_def is_digit_ascii is_digit_def decimal_def nd_runs_def)

lemma iterates_sample:
  "iterates [ustr ''1'', ustr ''01''] (ustr ''[1][01]'')"
  "iterates [ustr ''01'', ustr ''1''] (ustr ''[1][01]'')"
  by (auto simp: iterates_def findall_sample) (simp_all add: ustr_def)

lemma int_sample: "int_of_digits [49] = 1" "int_of_digits [48, 49] = 1" "int_of_digits [51] = 3"
  by (simp_all add: int_of_digits_def digit_value_ascii)

lemma py_int_sample: "py_int [49] = Inr 1" "py_int [48, 49] = Inr 1" "py_int [51] = Inr 3"
  by (simp_all add: py_int_Inr_iff is_digit_ascii int_sample int_max_str_digits_def)

lemma reference_sample:
  "reference_of [sample_source] [49] = Some (ref_data sample_source [49])"
  "reference_of [sample_source] [48, 49] = Some (ref_data sample_source [48, 49])"
  "reference_of [sample_source] [51] = None"
  by (simp_all add: reference_of_def py_int_sample)

lemma key_sample:
  "key_value (ref_data sample_source [49]) = 1"
  "key_value (ref_data sample_source [48, 49]) = 1"
  using marker_key_reference [OF reference_sample(1)] marker_key_reference [OF reference_sample(2)]
  by (simp_all add: int_sample)

lemma extract_sample:
  "extract_references [ustr ''1'', ustr ''01''] [sample_source] =
     Inr [ref_data sample_source [49], ref_data sample_source [48, 49]]"
  "extract_references [ustr ''01'', ustr ''1''] [sample_source] =
     Inr [ref_data sample_source [48, 49], ref_data sample_source [49]]"
  by (simp_all add: extract_references_total ustr_digits List.map_filter_def reference_sample key_sample)

lemma iterates_sample_two: "iterates [ustr ''3'', ustr ''1''] (ustr ''A [1] and B [3].'')"
  by (auto simp: iterates_def findall_sample_two) (simp_all add: ustr_def)

lemma extract_sample_two:
  "extract_references [ustr ''3'', ustr ''1''] [sample_source] = Inr [ref_data sample_source [49]]"
  by (simp add: extract_references_total ustr_digits List.map_filter_def reference_sample)

lemma sample_submitted:
  "submitted (s3_json_load_ingest sample_deps sample_response
      (JArr [sample_chat_without_messages, sample_chat])) = [sample_source]"
  by (simp add: sample_ingest sample_source_def)

lemma citation_timestamp_default:
  assumes "ingest_data dp acc data = Submitted chunks" and "c \<in> set chunks"
  shows "timestamp (ref_data c s) = JStr ''N/A''"
proof -
  from chunk_meta [OF assms] obtain chat msg where
      m: "\<forall>k. k \<noteq> ''chunk_id'' \<longrightarrow> k \<noteq> ''chunk_index'' \<longrightarrow>
         map_of (metadata c) k = map_of (meta_of dp acc chat msg) k"
    by auto
  have "map_of (metadata c) ''timestamp'' = map_of (meta_of dp acc chat msg) ''timestamp''"
    using m by simp
  then have "map_of (metadata c) ''timestamp'' = None"
    by (simp add: meta_of_def)
  then show ?thesis
    by (simp add: ref_data_def dict_get_def)
qed

text \<open>
  Claim C2, as stated, fails: the markers are deduplicated as texts, not as numbers. The
  answer \<open>[1][01]\<close> has the two marker texts \<open>1\<close> and \<open>01\<close>; with one retrieved document
  both resolve, in either iteration order, and the citation list holds the marker value 1
  twice.
\<close>

theorem citations_dedup_by_value_counterexample:
  "iterates [ustr ''1'', ustr ''01''] (ustr ''[1][01]'')
   \<and> map key_value (references (extract_references [ustr ''1'', ustr ''01''] [sample_source])) = [1, 1]
   \<and> iterates [ustr ''01'', ustr ''1''] (ustr ''[1][01]'')
   \<and> map key_value (references (extract_references [ustr ''01'', ustr ''1''] [sample_source])) = [1, 1]"
  by (simp add: iterates_sample extract_sample key_sample)

text \<open>
  Claim C2, amended. For every iteration order of the set of marker texts, extraction
  returns a list in which no marker text (\<open>source_id\<close>) occurs twice, sorted ascending by
  the numeric marker value, each citation coming from a marker text found in the answer.
\<close>

theorem citations_distinct_and_sorted:
  assumes "iterates order answer"
  shows "\<exists>refs. extract_references order docs = Inr refs
     \<and> distinct (map source_id refs)
     \<and> sorted (map key_value refs)
     \<and> (\<forall>r \<in> set refs. \<exists>s \<in> set (findall answer).
           source_id r = bracketed s \<and> marker_key r = Inr (int_of_digits s))"
proof -
  let ?refs = "sort_key key_value (List.map_filter (reference_of docs) order)"
  have t: "extract_references order docs = Inr ?refs"
    by (rule extract_references_total)
  from assms have d: "distinct order" and o: "set order = set (findall answer)"
    by (simp_all add: iterates_def)
  have a: "distinct (map source_id ?refs)"
    using distinct_source_ids [OF d, of docs] by (simp only: distinct_map_sort_key)
  have b: "sorted (map key_value ?refs)"
    by (rule sorted_extract)
  have c: "\<forall>r \<in> set ?refs. \<exists>s \<in> set (findall answer).
      source_id r = bracketed s \<and> marker_key r = Inr (int_of_digits s)"
  proof
    fix r
    assume "r \<in> set ?refs"
    then obtain s where "s \<in> set order" "reference_of docs s = Some r"
      by (auto simp: map_filter_references)
    with o marker_key_reference [of docs s r]
    show "\<exists>s \<in> set (findall answer). source_id r = bracketed s \<and> marker_key r = Inr (int_of_digits s)"
      by blast
  qed
  from t a b c show ?thesis by blast
qed

theorem citations_distinct_and_sorted_witness:
  "iterates [ustr ''3'', ustr ''1''] (ustr ''A [1] and B [3].'')
   \<and> extract_references [ustr ''3'', ustr ''1''] [sample_source] = Inr [ref_data sample_source [49]]
   \<and> distinct (map source_id [ref_data sample_source [49]])
   \<and> sorted (map key_value [ref_data sample_source [49]])"
proof -
  note h = iterates_sample_two
  from citations_distinct_and_sorted [OF h, of "[sample_source]"] obtain refs where
    "extract_references [ustr ''3'', ustr ''1''] [sample_source] = Inr refs"
    "distinct (map source_id refs)" "sorted (map key_value refs)"
    by blast
  with h show ?thesis
    by (simp add: extract_sample_two)
qed

text \<open>
  Claim C9, as stated, fails in its last part: the output can be longer than the list of
  candidates. With one candidate, the answer \<open>[1][01]\<close> gives two citations.
\<close>

theorem citation_count_counterexample:
  "iterates [ustr ''1'', ustr ''01''] (ustr ''[1][01]'')
   \<and> \<not> length (references (extract_references [ustr ''1'', ustr ''01''] [sample_source]))
        \<le> length [sample_source]
   \<and> iterates [ustr ''01'', ustr ''1''] (ustr ''[1][01]'')
   \<and> \<not> length (references (extract_references [ustr ''01'', ustr ''1''] [sample_source]))
        \<le> length [sample_source]"
  by (simp add: iterates_sample extract_sample)

text \<open>
  Claim C9, amended. Extraction never raises. A marker text of the answer is resolved
  exactly when it has at most 4300 digits and its value \<open>n\<close> satisfies \<open>1 \<le> n \<le> L\<close>,
  \<open>L\<close> being the number of candidates; every other marker is dropped. Each citation is
  built from the candidate at index \<open>n - 1\<close>. The output is no longer than the number of
  distinct marker texts, and it holds at most \<open>L\<close> distinct marker values.
\<close>

theorem citation_extraction_total:
  assumes "iterates order answer"
  shows "\<exists>refs. extract_references order docs = Inr refs
     \<and> (\<forall>s \<in> set order. bracketed s \<in> set (map source_id refs) \<longleftrightarrow>
           length s \<le> int_max_str_digits \<and> 1 \<le> int_of_digits s
           \<and> int_of_digits s \<le> int (length docs))
     \<and> (\<forall>r \<in> set refs. \<exists>s \<in> set order. r = ref_data (docs ! nat (int_of_digits s - 1)) s
           \<and> key_value r = int_of_digits s
           \<and> 1 \<le> int_of_digits s \<and> int_of_digits s \<le> int (length docs))
     \<and> length refs \<le> length order
     \<and> card (key_value ` set refs) \<le> length docs"
proof -
  let ?refs = "sort_key key_value (List.map_filter (reference_of docs) order)"
  have t: "extract_references order docs = Inr ?refs"
    by (rule extract_references_total)
  have a: "\<forall>s \<in> set order. bracketed s \<in> set (map source_id ?refs) \<longleftrightarrow>
           length s \<le> int_max_str_digits \<and> 1 \<le> int_of_digits s
           \<and> int_of_digits s \<le> int (length docs)"
  proof
    fix s
    assume s: "s \<in> set order"
    with assms have "s \<noteq> []" "list_all is_digit s"
      by (auto dest: iterates_digits)
    then have "reference_of docs s \<noteq> None \<longleftrightarrow>
        length s \<le> int_max_str_digits \<and> 1 \<le> int_of_digits s \<and> int_of_digits s \<le> int (length docs)"
      by (rule resolved_iff)
    moreover have "bracketed s \<in> set (map source_id ?refs) \<longleftrightarrow> reference_of docs s \<noteq> None"
      using s unfolding set_source_ids by (auto dest: bracketed_inj)
    ultimately show "bracketed s \<in> set (map source_id ?refs) \<longleftrightarrow>
           length s \<le> int_max_str_digits \<and> 1 \<le> int_of_digits s
           \<and> int_of_digits s \<le> int (length docs)"
      by simp
  qed
  have b: "\<forall>r \<in> set ?refs. \<exists>s \<in> set order. r = ref_data (docs ! nat (int_of_digits s - 1)) s
           \<and> key_value r = int_of_digits s
           \<and> 1 \<le> int_of_digits s \<and> int_of_digits s \<le> int (length docs)"
    using key_values_in_range [of _ docs order] by simp
  have c: "length ?refs \<le> length order"
    by (simp add: length_map_filter_le)
  have d: "card (key_value ` set ?refs) \<le> length docs"
    using card_key_values [of docs order] by simp
  from t a b c d show ?thesis by blast
qed

theorem citation_extraction_total_witness:
  "iterates [ustr ''3'', ustr ''1''] (ustr ''A [1] and B [3].'')
   \<and> extract_references [ustr ''3'', ustr ''1''] [sample_source] = Inr [ref_data sample_source [49]]
   \<and> bracketed (ustr ''1'') \<in> set (map source_id [ref_data sample_source [49]])
   \<and> bracketed (ustr ''3'') \<notin> set (map source_id [ref_data sample_source [49]])
   \<and> length [ref_data sample_source [49]] \<le> length [ustr ''3'', ustr ''1'']
   \<and> card (key_value ` set [ref_data sample_source [49]]) \<le> length [sample_source]"
proof -
  note h = iterates_sample_two
  from citation_extraction_total [OF h, of "[sample_source]"] obtain refs where
    e: "extract_references [ustr ''3'', ustr ''1''] [sample_source] = Inr refs" and
    r: "\<forall>s \<in> set [ustr ''3'', ustr ''1'']. bracketed s \<in> set (map source_id refs) \<longleftrightarrow>
           length s \<le> int_max_str_digits \<and> 1 \<le> int_of_digits s
           \<and> int_of_digits s \<le> int (length [sample_source])" and
    l: "length refs \<le> length [ustr ''3'', ustr ''1'']" and
    c: "card (key_value ` set refs) \<le> length [sample_source]"
    by blast
  from e have refs: "refs = [ref_data sample_source [49]]"
    by (simp add: extract_sample_two)
  from r have "bracketed (ustr ''1'') \<in> set (map source_id refs)"
    and "bracketed (ustr ''3'') \<notin> set (map source_id refs)"
    by (simp_all add: ustr_digits int_sample int_max_str_digits_def)
  with h e l c show ?thesis
    unfolding refs by blast
qed

text \<open>
  Claim C10 holds of the intended behaviour and not of the code. Ingestion records the
  turn's timestamp under \<open>turn_timestamp\<close> (line 121); extraction reads the key
  \<open>timestamp\<close> (line 104), which no ingested record has, and puts the default \<open>N/A\<close> in
  the citation. Title, chat id and turn id are carried.
\<close>

theorem citation_timestamp_not_carried:
  "iterates [ustr ''1''] (ustr ''[1]'')
   \<and> submitted (s3_json_load_ingest sample_deps sample_response
      (JArr [sample_chat_without_messages, sample_chat])) = [sample_source]
   \<and> map_of (metadata sample_source) ''turn_timestamp'' = Some (JStr ''2024-05-01'')
   \<and> extract_references [ustr ''1''] [sample_source] =
       Inr [\<lparr>source_id = ustr ''[1]'', title = JStr ''Reset'', chat_id = JStr ''c1'',
             turn_id = JInt 1, timestamp = JStr ''N/A''\<rparr>]"
proof -
  have "ref_data sample_source [49] =
      \<lparr>source_id = ustr ''[1]'', title = JStr ''Reset'', chat_id = JStr ''c1'',
        turn_id = JInt 1, timestamp = JStr ''N/A''\<rparr>"
    by (simp add: ref_data_def sample_source_def dict_get_def ustr_def)
  moreover have "extract_references [ustr ''1''] [sample_source] = Inr [ref_data sample_source [49]]"
    by (simp add: extract_references_total ustr_digits List.map_filter_def reference_sample)
  moreover have "map_of (metadata sample_source) ''turn_timestamp'' = Some (JStr ''2024-05-01'')"
    by (simp add: sample_source_def)
  moreover have "iterates [ustr ''1''] (ustr ''[1]'')"
    by (simp add: iterates_def ustr_def is_open_def is_close_def is_digit_ascii)
  ultimately show ?thesis
    by (simp add: sample_submitted)
qed

section \<open>Properties of the chunker\<close>

lemma is_prefix_iff: "is_prefix xs ys \<longleftrightarrow> (\<exists>zs. ys = xs @ zs)"
  by (induction xs ys rule: is_prefix.induct) auto






lemma pieces_nonempty: "p \<in> set (pieces sep t) \<Longrightarrow> p \<noteq> []"
  by (simp add: pieces_def)




lemma pieces_empty_separator: "p \<in> set (pieces [] t) \<Longrightarrow> length p = 1"
  by (auto simp: pieces_def)

lemma shrink_fits:
  "shrink chunk_size chunk_overlap n cur = [] \<or>
   length (concat (shrink chunk_size chunk_overlap n cur)) + n \<le> chunk_size"
  by (induction cur) auto

lemma merge_pieces_bound:
  assumes "\<forall>d \<in> set ds. length d \<le> chunk_size" and "length (concat cur) \<le> chunk_size"
    and "c \<in> set (merge_pieces chunk_size chunk_overlap cur ds)"
  shows "length c \<le> chunk_size"
  using assms
proof (induction ds arbitrary: cur)
  case Nil
  then show ?case by (auto split: if_splits)
next
  case (Cons d ds)
  show ?case
  proof (cases "chunk_size < length (concat cur) + length d")
    case True
    let ?r = "shrink chunk_size chunk_overlap (length d) cur"
    from Cons.prems(3) True consider "c = concat cur" "cur \<noteq> []"
      | "c \<in> set (merge_pieces chunk_size chunk_overlap (?r @ [d]) ds)"
      by (auto split: if_splits)
    then show ?thesis
    proof cases
      case 1
      with Cons.prems(2) show ?thesis by simp
    next
      case 2
      have "length (concat (?r @ [d])) \<le> chunk_size"
        using shrink_fits [of chunk_size chunk_overlap "length d" cur] Cons.prems(1) by auto
      with Cons.IH [of "?r @ [d]"] Cons.prems(1) 2 show ?thesis
        by simp
    qed
  next
    case False
    with Cons.prems(3) have "c \<in> set (merge_pieces chunk_size chunk_overlap (cur @ [d]) ds)"
      by simp
    moreover from False have "length (concat (cur @ [d])) \<le> chunk_size"
      by simp
    ultimately show ?thesis
      using Cons.IH [of "cur @ [d]"] Cons.prems(1) by simp
  qed
qed



lemma collect_cases:
  assumes "\<forall>g \<in> set good. length g \<le> chunk_size"
    and "c \<in> set (collect chunk_size chunk_overlap resplit good ps)"
  shows "length c \<le> chunk_size \<or> (\<exists>p \<in> set ps. chunk_size < length p \<and> c \<in> set (resplit p))"
  using assms
proof (induction ps arbitrary: good)
  case Nil
  then have "length c \<le> chunk_size"
    using merge_pieces_bound [of good chunk_size "[]" c chunk_overlap] by simp
  then show ?case ..
next
  case (Cons p ps)
  show ?case
  proof (cases "length p \<le> chunk_size")
    case True
    with Cons.prems have "c \<in> set (collect chunk_size chunk_overlap resplit (good @ [p]) ps)"
      and "\<forall>g \<in> set (good @ [p]). length g \<le> chunk_size"
      by auto
    with Cons.IH [of "good @ [p]"] show ?thesis
      by auto
  next
    case False
    with Cons.prems(2) consider "c \<in> set (merge_pieces chunk_size chunk_overlap [] good)"
      | "c \<in> set (resplit p)" | "c \<in> set (collect chunk_size chunk_overlap resplit [] ps)"
      by auto
    then show ?thesis
    proof cases
      case 1
      with Cons.prems(1) have "length c \<le> chunk_size"
        using merge_pieces_bound [of good chunk_size "[]" c chunk_overlap] by simp
      then show ?thesis ..
    next
      case 2
      with False show ?thesis by auto
    next
      case 3
      with Cons.IH [of "[]"] show ?thesis by auto
    qed
  qed
qed



lemma is_prefix_trans: "is_prefix a b \<Longrightarrow> is_prefix b c \<Longrightarrow> is_prefix a c"
  by (auto simp: is_prefix_iff)

lemma split_at_nomatch:
  "sep \<noteq> [] \<Longrightarrow> nomatch sep t \<Longrightarrow> split_at sep cur t = [cur @ t]"
  by (induction t arbitrary: cur) simp_all

lemma split_at_forms:
  assumes "sep \<noteq> []" and "p \<in> set (split_at sep cur t)"
  shows "(\<exists>u. p = cur @ u \<and> nomatch sep u \<and> is_prefix u t) \<or> (\<exists>u. p = sep @ u \<and> nomatch sep u)"
  using assms
proof (induction sep cur t rule: split_at.induct)
  case (1 sep cur)
  then have "p = cur @ [] \<and> nomatch sep [] \<and> is_prefix [] []"
    by simp
  then show ?case by blast
next
  case (2 sep cur x xs)
  show ?case
  proof (cases "is_prefix sep (x # xs)")
    case True
    with "2.prems" consider "p = cur" | "p \<in> set (split_at sep sep (drop (length sep) (x # xs)))"
      by auto
    then show ?thesis
    proof cases
      case 1
      then have "p = cur @ [] \<and> nomatch sep [] \<and> is_prefix [] (x # xs)"
        by simp
      then show ?thesis by blast
    next
      case 2
      with "2.IH"(1) "2.prems"(1) True show ?thesis
        by blast
    qed
  next
    case False
    with "2.prems" have "p \<in> set (split_at sep (cur @ [x]) xs)"
      by simp
    with "2.IH"(2) "2.prems"(1) False
    consider u where "p = (cur @ [x]) @ u" "nomatch sep u" "is_prefix u xs"
      | u where "p = sep @ u" "nomatch sep u"
      by blast
    then show ?thesis
    proof cases
      case 1
      have "\<not> is_prefix sep (x # u)"
      proof
        assume "is_prefix sep (x # u)"
        moreover from 1(3) have "is_prefix (x # u) (x # xs)" by simp
        ultimately have "is_prefix sep (x # xs)" by (rule is_prefix_trans)
        with False show False ..
      qed
      with 1 have "p = cur @ (x # u) \<and> nomatch sep (x # u) \<and> is_prefix (x # u) (x # xs)"
        by simp
      then show ?thesis by blast
    next
      case 2
      then show ?thesis by blast
    qed
  qed
qed

lemma is_prefix_append [simp]: "is_prefix sep (sep @ u)"
  by (simp add: is_prefix_iff)

lemma split_at_separator_first:
  assumes "sep \<noteq> []" and "nomatch sep u"
  shows "split_at sep [] (sep @ u) = [[], sep @ u]"
proof -
  from assms(1) obtain a as where sep: "sep = a # as"
    by (cases sep) auto
  have p: "is_prefix sep (a # (as @ u))"
    using is_prefix_append [of sep u] by (simp add: sep)
  have d: "drop (length sep) (a # (as @ u)) = u"
    by (simp add: sep)
  have "split_at sep [] (a # (as @ u)) = [] # split_at sep sep (drop (length sep) (a # (as @ u)))"
    using assms(1) p by (simp only: split_at.simps if_True simp_thms)
  also have "\<dots> = [] # split_at sep sep u"
    by (simp only: d)
  also have "\<dots> = [[], sep @ u]"
    using assms by (simp add: split_at_nomatch)
  finally show ?thesis
    by (simp add: sep)
qed

lemma pieces_idempotent:
  assumes "p \<in> set (pieces sep t)"
  shows "pieces sep p = [p]"
proof (cases "sep = []")
  case True
  with assms obtain x where "p = [x]"
    by (auto simp: pieces_def)
  with True show ?thesis
    by (simp add: pieces_def)
next
  case False
  from assms have ne: "p \<noteq> []"
    by (rule pieces_nonempty)
  from assms False have "p \<in> set (split_at sep [] t)"
    by (simp add: pieces_def)
  from split_at_forms [OF False this]
  consider u where "p = u" "nomatch sep u" | u where "p = sep @ u" "nomatch sep u"
    by auto
  then show ?thesis
  proof cases
    case 1
    with False ne show ?thesis
      by (simp add: pieces_def split_at_nomatch)
  next
    case 2
    with False show ?thesis
      by (simp add: pieces_def split_at_separator_first)
  qed
qed

lemma atomic_Cons: "seps \<noteq> [] \<Longrightarrow> atomic seps c \<Longrightarrow> atomic (sep # seps) c"
  by (simp add: atomic_def)

lemma recursive_split_bound:
  assumes "c \<in> set (recursive_split chunk_size chunk_overlap seps t)"
  shows "length c \<le> chunk_size \<or> atomic seps c"
  using assms
proof (induction seps arbitrary: t)
  case Nil
  show ?case by (simp add: atomic_def)
next
  case (Cons sep seps)
  from Cons.prems
  have "c \<in> set (collect chunk_size chunk_overlap (recursive_split chunk_size chunk_overlap seps) []
      (pieces sep t))"
    by simp
  then consider "length c \<le> chunk_size"
    | p where "p \<in> set (pieces sep t)" "chunk_size < length p"
        "c \<in> set (recursive_split chunk_size chunk_overlap seps p)"
    using collect_cases [of "[]" chunk_size c chunk_overlap _ "pieces sep t"] by auto
  then show ?case
  proof cases
    case 1
    then show ?thesis ..
  next
    case 2
    show ?thesis
    proof (cases "seps = []")
      case True
      with 2(3) have "c = p"
        by (simp split: if_splits)
      with 2(1) have "pieces sep c = [c]"
        by (simp add: pieces_idempotent)
      with True show ?thesis
        by (simp add: atomic_def)
    next
      case False
      from Cons.IH [OF 2(3)] show ?thesis
        using False by (auto intro: atomic_Cons)
    qed
  qed
qed

lemma atomic_empty_separator:
  assumes "seps \<noteq> []" and "last seps = []" and "atomic seps c"
  shows "length c = 1"
proof -
  from assms have "pieces [] c = [c]"
    by (simp add: atomic_def)
  then have "c \<in> set (pieces [] c)"
    by simp
  then show ?thesis
    by (rule pieces_empty_separator)
qed

lemma splitter_bound:
  assumes "c \<in> set (splitter_split_text s)"
  shows "length c \<le> 150"
proof -
  from assms have c: "c \<in> set (recursive_split 150 30 separators s)"
    by (simp add: splitter_split_text_def)
  have l: "separators \<noteq> []" "last separators = []"
    by (simp_all add: separators_def)
  from recursive_split_bound [OF c] show ?thesis
  proof
    assume "atomic separators c"
    with l have "length c = 1"
      by (rule atomic_empty_separator)
    then show ?thesis by simp
  qed
qed

lemma split_atomic_sample:
  "recursive_split 5 2 ['' ''] ''hello worldwide'' = [''hello'', '' worldwide'']"
  by (simp add: pieces_def)

lemma split_no_atomic_sample:
  "recursive_split 5 2 ['' '', []] ''hello worldwide'' = [''hello'', '' worl'', ''rldwi'', ''wide'']"
  by (simp add: pieces_def)



text \<open>
  Claim C6, for the chunker modelled from section 4.3. A segment is no longer than
  \<open>chunk_size\<close>, unless it is an atomic token, one to which no further separator
  applies. When the separator list ends in the empty separator, every segment is no
  longer than \<open>chunk_size\<close>; for the configured splitter that bound is 150.
\<close>

theorem segment_length_bound:
  "(c \<in> set (recursive_split chunk_size chunk_overlap seps s) \<longrightarrow>
      length c \<le> chunk_size \<or> atomic seps c)
   \<and> (c \<in> set (recursive_split chunk_size chunk_overlap seps s)
        \<and> 0 < chunk_size \<and> seps \<noteq> [] \<and> last seps = [] \<longrightarrow> length c \<le> chunk_size)
   \<and> (c \<in> set (splitter_split_text s) \<longrightarrow> length c \<le> 150)"
proof (intro conjI impI)
  show "length c \<le> chunk_size \<or> atomic seps c"
    if "c \<in> set (recursive_split chunk_size chunk_overlap seps s)"
    using that by (rule recursive_split_bound)
  show "length c \<le> chunk_size"
    if h: "c \<in> set (recursive_split chunk_size chunk_overlap seps s)
        \<and> 0 < chunk_size \<and> seps \<noteq> [] \<and> last seps = []"
  proof -
    from h [THEN conjunct1] have "length c \<le> chunk_size \<or> atomic seps c"
      by (rule recursive_split_bound)
    then show ?thesis
    proof
      assume "atomic seps c"
      with h have "length c = 1"
        by (intro atomic_empty_separator [of seps c]) simp_all
      with h show ?thesis by simp
    qed
  qed
  show "length c \<le> 150" if "c \<in> set (splitter_split_text s)"
    using that by (rule splitter_bound)
qed

theorem segment_length_bound_witness:
  "'' worldwide'' \<in> set (recursive_split 5 2 ['' ''] ''hello worldwide'')
   \<and> \<not> length '' worldwide'' \<le> 5
   \<and> atomic ['' ''] '' worldwide''
   \<and> ''rldwi'' \<in> set (recursive_split 5 2 ['' '', []] ''hello worldwide'')
   \<and> length ''rldwi'' \<le> 5
   \<and> ''hello world'' \<in> set (splitter_split_text ''hello world'')
   \<and> length ''hello world'' \<le> 150"
proof -
  have a: "'' worldwide'' \<in> set (recursive_split 5 2 ['' ''] ''hello worldwide'')"
    unfolding split_atomic_sample by simp
  have n: "\<not> length '' worldwide'' \<le> 5"
    by simp
  from segment_length_bound [of "'' worldwide''" 5 2 "['' '']" "''hello worldwide''"] a n
  have at: "atomic ['' ''] '' worldwide''"
    by blast
  have b: "''rldwi'' \<in> set (recursive_split 5 2 ['' '', []] ''hello worldwide'')"
    unfolding split_no_atomic_sample by simp
  have "(0::nat) < 5 \<and> ['' '', []] \<noteq> [] \<and> last ['' '', []] = ([]::string)"
    by simp
  with segment_length_bound [of "''rldwi''" 5 2 "['' '', []]" "''hello worldwide''"] b
  have bl: "length ''rldwi'' \<le> 5"
    by blast
  have c: "''hello world'' \<in> set (splitter_split_text ''hello world'')"
    by (simp add: split_hello)
  with segment_length_bound [of "''hello world''" _ _ _ "''hello world''"]
  have cl: "length ''hello world'' \<le> 150"
    by blast
  from a n at b bl c cl show ?thesis
    by blast
qed

section \<open>Ownership key and retriever filter\<close>

lemma docs_of_msgs_origin:
  "docs_of_msgs dp acc chat ms = Inr ds \<Longrightarrow> d \<in> set ds \<Longrightarrow>
   \<exists>m \<in> set ms. doc_of_msg dp acc chat m = Inr d"
proof (induction ms arbitrary: ds)
  case Nil
  then show ?case by simp
next
  case (Cons m ms)
  from Cons.prems(1) obtain d0 ds0 where
    d0: "doc_of_msg dp acc chat m = Inr d0" and
    ds0: "docs_of_msgs dp acc chat ms = Inr ds0" and
    ds: "ds = d0 # ds0"
    by (auto simp: bind_eq_Inr)
  show ?case
  proof (cases "d = d0")
    case True
    with d0 show ?thesis by simp
  next
    case False
    with Cons.prems(2) ds have "d \<in> set ds0" by simp
    with Cons.IH [OF ds0] show ?thesis by auto
  qed
qed

lemma docs_of_chat_origin:
  assumes "docs_of_chat dp acc c = Inr ds" and "d \<in> set ds"
  shows "\<exists>chat msgs ms m. c = JObj chat \<and> map_of chat ''messages'' = Some msgs
           \<and> iter msgs = Inr ms \<and> m \<in> set ms \<and> doc_of_msg dp acc chat m = Inr d"
proof (cases c)
  case (JObj chat)
  show ?thesis
  proof (cases "map_of chat ''messages''")
    case None
    with assms JObj show ?thesis by simp
  next
    case (Some msgs)
    with assms(1) JObj obtain ms where ms: "iter msgs = Inr ms" "docs_of_msgs dp acc chat ms = Inr ds"
      by (auto simp: bind_eq_Inr)
    from docs_of_msgs_origin [OF ms(2) assms(2)] obtain m where
      "m \<in> set ms" "doc_of_msg dp acc chat m = Inr d"
      by blast
    with JObj Some ms(1) show ?thesis by blast
  qed
qed (use assms in \<open>auto split: if_splits\<close>)

lemma docs_of_chats_origin:
  "docs_of_chats dp acc cs = Inr ds \<Longrightarrow> d \<in> set ds \<Longrightarrow>
   \<exists>chat msgs ms m. JObj chat \<in> set cs \<and> map_of chat ''messages'' = Some msgs
      \<and> iter msgs = Inr ms \<and> m \<in> set ms \<and> doc_of_msg dp acc chat m = Inr d"
proof (induction cs arbitrary: ds)
  case Nil
  then show ?case by simp
next
  case (Cons c cs)
  from Cons.prems(1) obtain xs ys where
    xs: "docs_of_chat dp acc c = Inr xs" and
    ys: "docs_of_chats dp acc cs = Inr ys" and
    ds: "ds = xs @ ys"
    by (auto simp: bind_eq_Inr)
  from Cons.prems(2) ds consider "d \<in> set xs" | "d \<in> set ys" by auto
  then show ?case
  proof cases
    case 1
    from docs_of_chat_origin [OF xs 1] obtain chat msgs ms m where
      "c = JObj chat" "map_of chat ''messages'' = Some msgs" "iter msgs = Inr ms"
      "m \<in> set ms" "doc_of_msg dp acc chat m = Inr d"
      by blast
    then have "JObj chat \<in> set (c # cs) \<and> map_of chat ''messages'' = Some msgs
      \<and> iter msgs = Inr ms \<and> m \<in> set ms \<and> doc_of_msg dp acc chat m = Inr d"
      by simp
    then show ?thesis by blast
  next
    case 2
    from Cons.IH [OF ys 2] obtain chat msgs ms m where
      "JObj chat \<in> set cs" "map_of chat ''messages'' = Some msgs" "iter msgs = Inr ms"
      "m \<in> set ms" "doc_of_msg dp acc chat m = Inr d"
      by blast
    then have "JObj chat \<in> set (c # cs) \<and> map_of chat ''messages'' = Some msgs
      \<and> iter msgs = Inr ms \<and> m \<in> set ms \<and> doc_of_msg dp acc chat m = Inr d"
      by simp
    then show ?thesis by blast
  qed
qed

lemma chunk_docs_source:
  "c \<in> set (chunk_docs dp docs) \<Longrightarrow>
   \<exists>d ic. d \<in> set docs \<and> ic \<in> set (enumerate 0 (split_text dp (page_content d)))
      \<and> c = chunk_doc dp d ic"
  by (auto simp: chunk_docs_def chunks_of_doc_def)

lemma chunk_account_of_doc:
  assumes "doc_of_msg dp acc chat m = Inr d"
  shows "map_of (metadata (chunk_doc dp d ic)) ''chat_account'' =
           Some (dict_get chat ''chat_user'' (env_chat_user dp))"
proof -
  from assms obtain msg where "metadata d = meta_of dp acc chat msg"
    by (blast dest: doc_of_msg_meta)
  then show ?thesis
    by (simp add: chunk_doc_map_of meta_of_owner)
qed

lemma sample_owned_ingest:
  "s3_json_load_ingest sample_deps sample_response sample_owned_chat =
     Inr (Submitted
       [\<lparr>page_content = ''hello'',
         metadata =
           [(''chat_engine'', JStr ''chatgpt''), (''chat_account'', JStr ''alice''),
            (''chat_id'', JStr ''c2''), (''title'', JStr ''Plans''),
            (''chat_creation_time'', JNull), (''turn_id'', JInt 1), (''author'', JNull),
            (''turn_timestamp'', JNull), (''accessibility'', JStr ''work''),
            (''accessibility_confidence_score'', JFloat (9 / 10)),
            (''chunk_index'', JInt 0), (''chunk_id'', JStr ''c2::1::0'')]\<rparr>])"
proof -
  have "s3_json_load_ingest sample_deps sample_response sample_owned_chat
      = Inr (ingest_data sample_deps (''work'', JFloat (9 / 10)) sample_owned_chat)"
    using sample_truthy sample_probability sample_decision by (rule s3_json_load_ingest_classified)
  moreover have "split_text sample_deps = splitter_split_text"
    by (simp add: sample_deps_def)
  moreover have "env_chat_engine sample_deps = JStr ''chatgpt''" "env_chat_user sample_deps = JNull"
    by (simp_all add: sample_deps_def)
  ultimately show ?thesis
    by (simp add: ingest_data_def sample_owned_chat_def content_of_def chunk_docs_def
        chunks_of_doc_def split_word chunk_doc_def chunk_id_def meta_of_def dict_get_def
        str_int_def str_nat.simps digit_char_def)
qed

text \<open>
  Claim C7. Every chunk that the ingestion call submits was built from a turn of a chat
  record of the batch, and it stores that record's ownership value
  (\<open>chat.get("chat_user", os.getenv('CHAT_USER'))\<close>, line 115) under the key
  \<open>chat_account\<close>; it has no key \<open>chat_user\<close>. For a non-empty \<open>chat_user\<close> the
  retriever's filter is the single condition \<open>chat_user = u\<close>, and no such chunk
  satisfies it.
\<close>

theorem chat_user_filter_matches_no_chunk:
  assumes "s3_json_load_ingest dp resp data = Inr (Submitted chunks)" and "c \<in> set chunks"
  shows "(\<exists>acc chats cs chat msgs ms m d ic.
            normalize data = Some chats \<and> iter chats = Inr cs \<and> JObj chat \<in> set cs
            \<and> map_of chat ''messages'' = Some msgs \<and> iter msgs = Inr ms \<and> m \<in> set ms
            \<and> doc_of_msg dp acc chat m = Inr d
            \<and> ic \<in> set (enumerate 0 (split_text dp (page_content d)))
            \<and> c = chunk_doc dp d ic
            \<and> map_of (metadata c) ''chat_account'' =
                Some (dict_get chat ''chat_user'' (env_chat_user dp)))
     \<and> map_of (metadata c) ''chat_user'' = None
     \<and> (\<forall>u. u \<noteq> [] \<longrightarrow> pinecone_filter (Some u) = [(''chat_user'', Eq (JStr u))]
            \<and> \<not> satisfies (metadata c) (pinecone_filter (Some u)))"
proof -
  from assms(1) obtain acc where ing: "ingest_data dp acc data = Submitted chunks"
    by (blast dest: s3_json_load_ingest_Submitted)
  from ingest_data_Submitted [OF ing] obtain chats cs docs where
    n: "normalize data = Some chats" and i: "iter chats = Inr cs" and
    docs: "docs_of_chats dp acc cs = Inr docs" and chunks: "chunks = chunk_docs dp docs"
    by blast
  from assms(2) chunks obtain d ic where
    d: "d \<in> set docs" and ic: "ic \<in> set (enumerate 0 (split_text dp (page_content d)))" and
    c: "c = chunk_doc dp d ic"
    by (blast dest: chunk_docs_source)
  from docs_of_chats_origin [OF docs d] obtain chat msgs ms m where
    chat: "JObj chat \<in> set cs" and msgs: "map_of chat ''messages'' = Some msgs" and
    ms: "iter msgs = Inr ms" and m: "m \<in> set ms" and dm: "doc_of_msg dp acc chat m = Inr d"
    by blast
  have acct: "map_of (metadata c) ''chat_account'' =
      Some (dict_get chat ''chat_user'' (env_chat_user dp))"
    unfolding c using dm by (rule chunk_account_of_doc)
  have first: "\<exists>acc chats cs chat msgs ms m d ic.
            normalize data = Some chats \<and> iter chats = Inr cs \<and> JObj chat \<in> set cs
            \<and> map_of chat ''messages'' = Some msgs \<and> iter msgs = Inr ms \<and> m \<in> set ms
            \<and> doc_of_msg dp acc chat m = Inr d
            \<and> ic \<in> set (enumerate 0 (split_text dp (page_content d)))
            \<and> c = chunk_doc dp d ic
            \<and> map_of (metadata c) ''chat_account'' =
                Some (dict_get chat ''chat_user'' (env_chat_user dp))"
    using n i chat msgs ms m dm ic c acct by blast
  from chunk_owner [OF ing assms(2)] have second: "map_of (metadata c) ''chat_user'' = None"
    by simp
  then have third: "\<forall>u. u \<noteq> [] \<longrightarrow> pinecone_filter (Some u) = [(''chat_user'', Eq (JStr u))]
            \<and> \<not> satisfies (metadata c) (pinecone_filter (Some u))"
    by (simp add: pinecone_filter_def)
  from first second third show ?thesis
    by (intro conjI)
qed

theorem chat_user_filter_matches_no_chunk_witness:
  "\<exists>c. s3_json_load_ingest sample_deps sample_response sample_owned_chat = Inr (Submitted [c])
     \<and> c \<in> set [c]
     \<and> dict_get [(''chat_id'', JStr ''c2''), (''chat_user'', JStr ''alice''), (''title'', JStr ''Plans''),
          (''messages'', JArr [JObj [(''turn_id'', JInt 1), (''message'', JStr ''hello'')]])]
          ''chat_user'' (env_chat_user sample_deps) = JStr ''alice''
     \<and> map_of (metadata c) ''chat_account'' = Some (JStr ''alice'')
     \<and> map_of (metadata c) ''chat_user'' = None
     \<and> pinecone_filter (Some ''alice'') = [(''chat_user'', Eq (JStr ''alice''))]
     \<and> \<not> satisfies (metadata c) (pinecone_filter (Some ''alice''))"
proof -
  let ?chat = "[(''chat_id'', JStr ''c2''), (''chat_user'', JStr ''alice''), (''title'', JStr ''Plans''),
          (''messages'', JArr [JObj [(''turn_id'', JInt 1), (''message'', JStr ''hello'')]])]"
  obtain c where c: "s3_json_load_ingest sample_deps sample_response sample_owned_chat
        = Inr (Submitted [c])"
    by (simp add: sample_owned_ingest)
  have m: "c \<in> set [c]"
    by simp
  have norm: "normalize sample_owned_chat = Some (JArr [JObj ?chat])"
    by (simp add: sample_owned_chat_def)
  have own: "dict_get ?chat ''chat_user'' (env_chat_user sample_deps) = JStr ''alice''"
    by (simp add: dict_get_def)
  from chat_user_filter_matches_no_chunk [OF c m] obtain chats cs chat where
    n: "normalize sample_owned_chat = Some chats" and i: "iter chats = Inr cs" and
    chat: "JObj chat \<in> set cs" and
    acct: "map_of (metadata c) ''chat_account'' =
        Some (dict_get chat ''chat_user'' (env_chat_user sample_deps))"
    by blast
  from n norm have "chats = JArr [JObj ?chat]"
    by simp
  with i have "cs = [JObj ?chat]"
    by simp
  with chat have "chat = ?chat"
    by simp
  with acct own have a: "map_of (metadata c) ''chat_account'' = Some (JStr ''alice'')"
    by simp
  from chat_user_filter_matches_no_chunk [OF c m]
  have u: "map_of (metadata c) ''chat_user'' = None"
    and f: "pinecone_filter (Some ''alice'') = [(''chat_user'', Eq (JStr ''alice''))]"
    and s: "\<not> satisfies (metadata c) (pinecone_filter (Some ''alice''))"
    by simp_all
  from c m own a u f s show ?thesis
    by blast
qed

end
